theory Spec2Isabelle
  imports Complex_Main
begin

unbundle bit_operations_syntax

section \<open>Python and NumPy values used by \<open>chaotic_cipher.py\<close>\<close>

text \<open>
  The exceptions the two functions of the cipher can raise.  \<open>bytearray\<close> with a negative
  count, a byte outside \<open>range(256)\<close> and \<open>int(nan)\<close> raise \<open>ValueError\<close>; \<open>int(inf)\<close>,
  an overflowing \<open>float ** 2\<close> and a count that does not fit an index raise
  \<open>OverflowError\<close>.
\<close>

datatype error = ValueError | OverflowError | IndexError | FileNotFoundError

subsection \<open>Binary64 arithmetic\<close>

text \<open>
  A double is a finite value, one of the two infinities, or NaN.  A finite double is
  carried by the real number it denotes.  The two zeros are identified: the generator
  squares, exponentiates (\<open>exp(-0.0) = exp(0.0) = 1.0\<close>) or truncates
  (\<open>int(-0.0) = 0\<close>) every value it computes and divides by the literal \<open>2\<close> only, so the
  sign of a zero never reaches a key byte.
\<close>

datatype double = Finite real | PInf | NInf | NaN

fun is_finite :: "double \<Rightarrow> bool" where
  "is_finite (Finite r) = True"
| "is_finite PInf = False"
| "is_finite NInf = False"
| "is_finite NaN = False"

text \<open>
  The finite doubles: \<open>m * 2 ^ e\<close> with a significand of at most 53 bits and the exponent
  of the last place between \<open>-1074\<close> and \<open>971\<close>.
\<close>

definition representable :: "real \<Rightarrow> bool" where
  "representable r \<longleftrightarrow>
     (\<exists>m e. \<bar>m\<bar> < 2 ^ 53 \<and> - 1074 \<le> e \<and> e \<le> 971 \<and> r = of_int m * 2 powi e)"

text \<open>Rounding to the nearest integer, ties to the even one.\<close>

definition round_even :: "real \<Rightarrow> int" where
  "round_even y =
     (let f = \<lfloor>y\<rfloor>; d = y - of_int f
      in if d < 1 / 2 then f else if 1 / 2 < d then f + 1 else if even f then f else f + 1)"

text \<open>
  The exponent of the unit in the last place of a nonzero real: 52 below its binary
  exponent, and never below the subnormal exponent \<open>-1074\<close>.
\<close>

definition ulp_exp :: "real \<Rightarrow> int" where
  "ulp_exp r = max (\<lfloor>log 2 \<bar>r\<bar>\<rfloor> - 52) (- 1074)"

text \<open>
  Round to nearest, ties to even, the default rounding of binary64: the real is rounded to
  a multiple of its unit in the last place, and a result of magnitude \<open>2 ^ 1024\<close> or more
  overflows to the infinity of its sign.
\<close>

definition round_double :: "real \<Rightarrow> double" where
  "round_double r =
     (if r = 0 then Finite 0
      else let u = 2 powi (ulp_exp r); v = of_int (round_even (r / u)) * u
           in if 2 ^ 1024 \<le> \<bar>v\<bar> then (if 0 < r then PInf else NInf) else Finite v)"

fun fneg :: "double \<Rightarrow> double" where
  "fneg (Finite a) = Finite (- a)"
| "fneg PInf = NInf"
| "fneg NInf = PInf"
| "fneg NaN = NaN"

fun fadd :: "double \<Rightarrow> double \<Rightarrow> double" where
  "fadd (Finite a) (Finite b) = round_double (a + b)"
| "fadd NaN y = NaN"
| "fadd x NaN = NaN"
| "fadd PInf NInf = NaN"
| "fadd NInf PInf = NaN"
| "fadd PInf y = PInf"
| "fadd NInf y = NInf"
| "fadd x PInf = PInf"
| "fadd x NInf = NInf"

fun fmul :: "double \<Rightarrow> double \<Rightarrow> double" where
  "fmul (Finite a) (Finite b) = round_double (a * b)"
| "fmul NaN y = NaN"
| "fmul x NaN = NaN"
| "fmul (Finite a) PInf = (if a = 0 then NaN else if 0 < a then PInf else NInf)"
| "fmul (Finite a) NInf = (if a = 0 then NaN else if 0 < a then NInf else PInf)"
| "fmul PInf (Finite b) = (if b = 0 then NaN else if 0 < b then PInf else NInf)"
| "fmul NInf (Finite b) = (if b = 0 then NaN else if 0 < b then NInf else PInf)"
| "fmul PInf PInf = PInf"
| "fmul PInf NInf = NInf"
| "fmul NInf PInf = NInf"
| "fmul NInf NInf = PInf"

text \<open>
  Division.  NumPy scalars do not raise on a zero divisor (they warn and return an
  infinity or NaN); with the zeros identified that branch takes the divisor as \<open>+0.0\<close>.
  The generator divides by the literal \<open>2\<close> only.
\<close>

fun fdiv :: "double \<Rightarrow> double \<Rightarrow> double" where
  "fdiv (Finite a) (Finite b) =
     (if b = 0 then (if a = 0 then NaN else if 0 < a then PInf else NInf)
      else round_double (a / b))"
| "fdiv NaN y = NaN"
| "fdiv x NaN = NaN"
| "fdiv (Finite a) PInf = Finite 0"
| "fdiv (Finite a) NInf = Finite 0"
| "fdiv PInf (Finite b) = (if 0 \<le> b then PInf else NInf)"
| "fdiv NInf (Finite b) = (if 0 \<le> b then NInf else PInf)"
| "fdiv PInf PInf = NaN"
| "fdiv PInf NInf = NaN"
| "fdiv NInf PInf = NaN"
| "fdiv NInf NInf = NaN"

subsection \<open>The mathematical library\<close>

text \<open>
  \<open>x**2\<close> and \<open>np.exp\<close> are computed by the mathematical library behind CPython and
  NumPy, which does not promise a correctly rounded result, so the three functions are
  parameters of the model: the C function \<open>pow(|x|, 2.0)\<close> that CPython's float \<open>**\<close>
  calls, the power of a NumPy scalar, and \<open>np.exp\<close>, each on a finite nonzero argument.
  \<open>None\<close> is an overflow; otherwise the result is a finite value.
\<close>

record libm =
  libm_pow2 :: "real \<Rightarrow> real option"
  np_pow2 :: "real \<Rightarrow> real option"
  np_exp_fin :: "real \<Rightarrow> real option"

definition of_libm :: "real option \<Rightarrow> double" where
  "of_libm r = (case r of None \<Rightarrow> PInf | Some v \<Rightarrow> Finite v)"

text \<open>
  The values every library agrees on are written out: \<open>0.0 ** 2 = 0.0\<close>,
  \<open>(+-inf) ** 2 = inf\<close>, \<open>exp(+-0.0) = 1.0\<close>, \<open>exp(inf) = inf\<close>, \<open>exp(-inf) = 0.0\<close>, and
  NaN gives NaN.  CPython takes the absolute value of the base before it calls \<open>pow\<close>
  with an even exponent.
\<close>

fun py_square :: "libm \<Rightarrow> double \<Rightarrow> double" where
  "py_square lib (Finite a) = (if a = 0 then Finite 0 else of_libm (libm_pow2 lib \<bar>a\<bar>))"
| "py_square lib PInf = PInf"
| "py_square lib NInf = PInf"
| "py_square lib NaN = NaN"

fun np_square :: "libm \<Rightarrow> double \<Rightarrow> double" where
  "np_square lib (Finite a) = (if a = 0 then Finite 0 else of_libm (np_pow2 lib a))"
| "np_square lib PInf = PInf"
| "np_square lib NInf = PInf"
| "np_square lib NaN = NaN"

text \<open>
  \<open>np.exp\<close> on a scalar.  It overflows to \<open>inf\<close> and underflows to \<open>0.0\<close> with a warning
  only.
\<close>

fun np_exp :: "libm \<Rightarrow> double \<Rightarrow> double" where
  "np_exp lib (Finite a) = (if a = 0 then Finite 1 else of_libm (np_exp_fin lib a))"
| "np_exp lib PInf = PInf"
| "np_exp lib NInf = Finite 0"
| "np_exp lib NaN = NaN"

subsection \<open>Python floats against NumPy scalars\<close>

text \<open>
  The variable \<open>x\<close> of the generator holds the Python float \<open>x0\<close> until the first update
  and a \<open>numpy.float64\<close> afterwards, since \<open>np.exp\<close> returns one.  The two differ in
  \<open>x**2\<close>: a Python float raises \<open>OverflowError\<close> when a finite operand overflows, a
  NumPy scalar returns \<open>inf\<close>.
\<close>

datatype pynum = PyFloat double | NpFloat64 double

fun pow2 :: "libm \<Rightarrow> pynum \<Rightarrow> error + double" where
  "pow2 lib (PyFloat x) =
     (if is_finite x \<and> \<not> is_finite (py_square lib x) then Inl OverflowError
      else Inr (py_square lib x))"
| "pow2 lib (NpFloat64 x) = Inr (np_square lib x)"

text \<open>\<open>int(x)\<close> on a float truncates towards zero and rejects the non-finite values.\<close>

fun py_int :: "double \<Rightarrow> error + int" where
  "py_int (Finite a) = Inr (if 0 \<le> a then \<lfloor>a\<rfloor> else \<lceil>a\<rceil>)"
| "py_int PInf = Inl OverflowError"
| "py_int NInf = Inl OverflowError"
| "py_int NaN = Inl ValueError"

text \<open>
  \<open>bytearray(n)\<close>: a count that does not fit a 64-bit index raises \<open>OverflowError\<close>, a
  negative count \<open>ValueError\<close>; otherwise \<open>n\<close> zero bytes.  Memory is taken as unbounded.
\<close>

definition bytearray :: "int \<Rightarrow> error + int list" where
  "bytearray n =
     (if n < - (2 ^ 63) \<or> 2 ^ 63 \<le> n then Inl OverflowError
      else if n < 0 then Inl ValueError
      else Inr (replicate (nat n) 0))"

text \<open>\<open>key[i] = v\<close> on a bytearray, for an index that \<open>range\<close> produced.\<close>

definition setitem :: "int list \<Rightarrow> nat \<Rightarrow> int \<Rightarrow> error + int list" where
  "setitem key i v =
     (if length key \<le> i then Inl IndexError
      else if v < 0 \<or> 255 < v then Inl ValueError
      else Inr (key[i := v]))"

text \<open>\<open>bytes(it)\<close> on an iterable of integers: every one must lie in \<open>range(256)\<close>.\<close>

definition bytes :: "int list \<Rightarrow> error + int list" where
  "bytes vs = (if \<forall>v \<in> set vs. 0 \<le> v \<and> v \<le> 255 then Inr vs else Inl ValueError)"

text \<open>
  What a \<open>bytes\<close> object can hold: integers of \<open>range(256)\<close>, fewer than \<open>2 ** 63\<close> of
  them.
\<close>

definition is_bytes :: "int list \<Rightarrow> bool" where
  "is_bytes vs \<longleftrightarrow> (\<forall>v \<in> set vs. 0 \<le> v \<and> v \<le> 255) \<and> int (length vs) < 2 ^ 63"

section \<open>The keystream generator\<close>

text \<open>A \<open>for\<close> loop over a list of indices; an exception in the body ends it.\<close>

fun for_range :: "(nat \<Rightarrow> 's \<Rightarrow> error + 's) \<Rightarrow> nat list \<Rightarrow> 's \<Rightarrow> error + 's" where
  "for_range body [] s = Inr s"
| "for_range body (i # is) s =
     (case body i s of Inl e \<Rightarrow> Inl e | Inr s' \<Rightarrow> for_range body is s')"

text \<open>The scaled value \<open>((x + 1)/2) * 256\<close> of line 20.\<close>

definition scaled :: "double \<Rightarrow> double" where
  "scaled x = fmul (fdiv (fadd x (Finite 1)) (Finite 2)) (Finite 256)"

text \<open>
  One pass through the loop body (lines 18 and 20) on the state \<open>(x, key)\<close>:
  \<open>x = np.exp(-alpha * x**2) + beta\<close>, then \<open>key[i] = int(((x + 1)/2) * 256) & 0xFF\<close>.
\<close>

definition keygen_body ::
  "libm \<Rightarrow> double \<Rightarrow> double \<Rightarrow> nat \<Rightarrow> pynum \<times> int list \<Rightarrow> error + pynum \<times> int list" where
  "keygen_body lib alpha beta i s =
     (case s of (x, key) \<Rightarrow>
        (case pow2 lib x of
           Inl e \<Rightarrow> Inl e
         | Inr sq \<Rightarrow>
             let x' = fadd (np_exp lib (fmul (fneg alpha) sq)) beta
             in (case py_int (scaled x') of
                   Inl e \<Rightarrow> Inl e
                 | Inr v \<Rightarrow>
                     (case setitem key i (v AND 255) of
                        Inl e \<Rightarrow> Inl e
                      | Inr key' \<Rightarrow> Inr (NpFloat64 x', key')))))"

text \<open>
  Lines 14 to 21: \<open>x = x0\<close>, \<open>key = bytearray(length)\<close>, the loop over
  \<open>range(length)\<close>, and \<open>bytes(key)\<close>.
\<close>

definition gauss_map_keygen ::
  "libm \<Rightarrow> int \<Rightarrow> double \<Rightarrow> double \<Rightarrow> double \<Rightarrow> error + int list" where
  "gauss_map_keygen lib len x0 alpha beta =
     (case bytearray len of
        Inl e \<Rightarrow> Inl e
      | Inr key \<Rightarrow>
          (case for_range (keygen_body lib alpha beta) [0..<nat len] (PyFloat x0, key) of
             Inl e \<Rightarrow> Inl e
           | Inr (x, key') \<Rightarrow> bytes key'))"

section \<open>The XOR transform\<close>

text \<open>
  Lines 37 to 42 of \<open>chaotic_encrypt_decrypt\<close>: a keystream as long as the data, and
  \<open>bytes(d ^ k for d, k in zip(data, key))\<close>.
\<close>

definition xor_transform ::
  "libm \<Rightarrow> int list \<Rightarrow> double \<Rightarrow> double \<Rightarrow> double \<Rightarrow> error + int list" where
  "xor_transform lib data x0 alpha beta =
     (case gauss_map_keygen lib (int (length data)) x0 alpha beta of
        Inl e \<Rightarrow> Inl e
      | Inr key \<Rightarrow> bytes (map (\<lambda>(d, k). d XOR k) (zip data key)))"

text \<open>
  The whole function on a store of files, a map from paths to contents.  A missing input
  file raises; other failures of the file system are outside the model.
\<close>

definition chaotic_encrypt_decrypt ::
  "libm \<Rightarrow> (string \<rightharpoonup> int list) \<Rightarrow> string \<Rightarrow> string \<Rightarrow> double \<Rightarrow> double \<Rightarrow> double
     \<Rightarrow> error + (string \<rightharpoonup> int list)" where
  "chaotic_encrypt_decrypt lib files input_path output_path x0 alpha beta =
     (case files input_path of
        None \<Rightarrow> Inl FileNotFoundError
      | Some data \<Rightarrow>
          (case xor_transform lib data x0 alpha beta of
             Inl e \<Rightarrow> Inl e
           | Inr result \<Rightarrow> Inr (files(output_path \<mapsto> result))))"

section \<open>The generator as the specification words it\<close>

text \<open>
  These definitions follow the words of the specification, to be compared with the
  functions above.  The map of section 4.1, step 2a, on the real numbers:
  \<open>exp(-alpha * x^2) + beta\<close>, with the exponential function of analysis.
\<close>

definition spec_gauss_map :: "real \<Rightarrow> real \<Rightarrow> real \<Rightarrow> real" where
  "spec_gauss_map a b r = exp (- (a * (r * r))) + b"

text \<open>
  The byte mapping of section 4.1, step 2b, on a finite scaled value: the floor, reduced
  modulo 256.
\<close>

definition spec_floor_byte :: "real \<Rightarrow> int" where
  "spec_floor_byte s = \<lfloor>s\<rfloor> mod 256"

section \<open>The states of the loop\<close>

text \<open>
  The value the loop assigns to \<open>x\<close> in its \<open>k\<close>-th iteration, read off line 18 with the
  exceptions left aside: the first square is Python's, the later ones NumPy's.
\<close>

primrec loop_state :: "libm \<Rightarrow> double \<Rightarrow> double \<Rightarrow> double \<Rightarrow> nat \<Rightarrow> double" where
  "loop_state lib alpha beta x0 0 = x0"
| "loop_state lib alpha beta x0 (Suc k) =
     fadd (np_exp lib (fmul (fneg alpha)
       ((if k = 0 then py_square lib else np_square lib) (loop_state lib alpha beta x0 k)))) beta"

text \<open>
  The byte line 20 stores for the state \<open>x\<close> (0 where \<open>int\<close> raises and nothing is
  stored).
\<close>

definition trunc_byte :: "double \<Rightarrow> int" where
  "trunc_byte x = (case py_int (scaled x) of Inl e \<Rightarrow> 0 | Inr v \<Rightarrow> v AND 255)"

text \<open>
  The first \<open>k\<close> iterations raise nothing: the square of a finite seed is finite, and
  every scaled value is finite.
\<close>

definition loop_ok :: "libm \<Rightarrow> double \<Rightarrow> double \<Rightarrow> double \<Rightarrow> nat \<Rightarrow> bool" where
  "loop_ok lib alpha beta x0 k \<longleftrightarrow>
     (0 < k \<longrightarrow> is_finite x0 \<longrightarrow> is_finite (py_square lib x0)) \<and>
     (\<forall>i < k. is_finite (scaled (loop_state lib alpha beta x0 (Suc i))))"

text \<open>The variable \<open>x\<close> after \<open>k\<close> iterations.\<close>

definition loop_x :: "libm \<Rightarrow> double \<Rightarrow> double \<Rightarrow> double \<Rightarrow> nat \<Rightarrow> pynum" where
  "loop_x lib alpha beta x0 k =
     (if k = 0 then PyFloat x0 else NpFloat64 (loop_state lib alpha beta x0 k))"

section \<open>Libraries\<close>

text \<open>
  A library that rounds correctly.  The libraries in use are within a few units in the
  last place of it.
\<close>

definition to_option :: "double \<Rightarrow> real option" where
  "to_option x = (case x of Finite v \<Rightarrow> Some v | PInf \<Rightarrow> None | NInf \<Rightarrow> None | NaN \<Rightarrow> None)"

definition rounding_libm :: libm where
  "rounding_libm =
     \<lparr>libm_pow2 = (\<lambda>r. to_option (round_double (r * r))),
      np_pow2 = (\<lambda>r. to_option (round_double (r * r))),
      np_exp_fin = (\<lambda>a. to_option (round_double (exp a)))\<rparr>"

text \<open>
  What the error bounds below ask of a library: on arguments of magnitude at most 4 a
  square is finite, not negative, and within \<open>2 ^ -45\<close> of the exact square; the
  exponential of a non-positive argument is finite, not negative, and within \<open>2 ^ -45\<close>
  of the exact exponential.  A square in that range is below 16 and an exponential below
  1, so this allows an error of 16 units in the last place and more.
\<close>

definition lib_accurate :: "libm \<Rightarrow> bool" where
  "lib_accurate lib \<longleftrightarrow>
     (\<forall>r. r \<noteq> 0 \<and> \<bar>r\<bar> \<le> 4 \<longrightarrow>
        (\<exists>v. libm_pow2 lib \<bar>r\<bar> = Some v \<and> 0 \<le> v \<and> \<bar>v - r * r\<bar> \<le> 1 / 2 ^ 45) \<and>
        (\<exists>v. np_pow2 lib r = Some v \<and> 0 \<le> v \<and> \<bar>v - r * r\<bar> \<le> 1 / 2 ^ 45)) \<and>
     (\<forall>t. t < 0 \<longrightarrow>
        (\<exists>e. np_exp_fin lib t = Some e \<and> 0 \<le> e \<and> \<bar>e - exp t\<bar> \<le> 1 / 2 ^ 45))"

section \<open>Rounding at the values the examples need\<close>

lemma round_even_of_int: "round_even (of_int z) = z"
  by (simp add: round_even_def)

lemma round_even_ge_floor: "\<lfloor>y\<rfloor> \<le> round_even y"
  by (simp add: round_even_def Let_def)

lemma powi_powr: "(2::real) powi k = 2 powr (of_int k)"
  by (simp add: powr_real_of_int')

lemma ulp_exp_le:
  assumes "r \<noteq> 0" "\<bar>r\<bar> < 2 powi (53 + e)" "- 1074 \<le> e"
  shows "ulp_exp r \<le> e"
proof -
  have "log 2 \<bar>r\<bar> < of_int (53 + e)"
    using assms(1,2) by (simp add: powi_powr log_less_iff del: of_int_add)
  then have "\<lfloor>log 2 \<bar>r\<bar>\<rfloor> < 53 + e"
    by (simp add: floor_less_iff)
  then show ?thesis using assms(3) by (simp add: ulp_exp_def)
qed

text \<open>A representable real rounds to itself.\<close>

lemma round_double_exact:
  assumes "\<bar>m\<bar> < 2 ^ 53" "- 1074 \<le> e" "e \<le> 971"
  shows "round_double (of_int m * 2 powi e) = Finite (of_int m * 2 powi e)"
proof (cases "m = 0")
  case True
  then show ?thesis by (simp add: round_double_def)
next
  case False
  let ?r = "of_int m * 2 powi e :: real"
  have r0: "?r \<noteq> 0" using False by simp
  have abs: "\<bar>?r\<bar> = of_int \<bar>m\<bar> * 2 powi e" by (simp add: abs_mult)
  have "of_int \<bar>m\<bar> < (2::real) ^ 53"
    using assms(1) by (metis of_int_less_iff of_int_numeral of_int_power)
  then have "\<bar>?r\<bar> < 2 ^ 53 * 2 powi e" unfolding abs by simp
  also have "\<dots> = 2 powi (53 + e)" by (simp add: power_int_add)
  finally have lt: "\<bar>?r\<bar> < 2 powi (53 + e)" .
  define u where "u = ulp_exp ?r"
  have ue: "u \<le> e" unfolding u_def by (rule ulp_exp_le[OF r0 lt assms(2)])
  have "?r / 2 powi u = of_int m * 2 powi (e - u)" by (simp add: power_int_diff)
  also have "\<dots> = of_int (m * 2 ^ nat (e - u))" using ue by (simp add: power_int_def)
  finally have q: "?r / 2 powi u = of_int (m * 2 ^ nat (e - u))" .
  have v: "of_int (round_even (?r / 2 powi u)) * 2 powi u = ?r"
    unfolding q round_even_of_int using q
    by (metis nonzero_eq_divide_eq power_int_eq_0_iff zero_neq_numeral)
  have "\<bar>?r\<bar> < 2 powi 1024"
  proof -
    have "(2::real) powi (53 + e) \<le> 2 powi 1024"
      using assms(3) by (intro power_int_increasing) simp_all
    then show ?thesis using lt by linarith
  qed
  then have "\<not> 2 ^ 1024 \<le> \<bar>?r\<bar>" by (simp add: not_le)
  then show ?thesis
    using r0 v unfolding round_double_def u_def[symmetric] Let_def by (simp only: if_False)
qed

text \<open>A real of \<open>2 ^ 1024\<close> or more overflows.\<close>

lemma round_double_overflow:
  assumes "2 ^ 1024 \<le> r"
  shows "round_double r = PInf"
proof -
  have r0: "0 < r" using assms by (smt (verit) zero_less_power)
  define L where "L = \<lfloor>log 2 \<bar>r\<bar>\<rfloor>"
  have "(1024::real) \<le> log 2 r" using assms r0 by (simp add: le_log_iff)
  then have L: "1024 \<le> L" unfolding L_def using r0 by (simp add: le_floor_iff)
  then have u: "ulp_exp r = L - 52" by (simp add: ulp_exp_def L_def)
  have "2 powr (of_int L) \<le> r"
    using r0 unfolding L_def by (simp add: powr_le_iff)
  then have Lr: "2 powi L \<le> r" by (simp add: powi_powr)
  have "(2::real) powi L = 2 ^ 52 * 2 powi (L - 52)" by (simp add: power_int_diff)
  then have "2 ^ 52 \<le> r / 2 powi (L - 52)" using Lr by (simp add: le_divide_eq)
  then have "(2::int) ^ 52 \<le> \<lfloor>r / 2 powi (L - 52)\<rfloor>" by (simp add: le_floor_iff)
  then have "(2::int) ^ 52 \<le> round_even (r / 2 powi (L - 52))"
    using round_even_ge_floor[of "r / 2 powi (L - 52)"] by linarith
  then have "(2::real) ^ 52 \<le> of_int (round_even (r / 2 powi (L - 52)))"
    by (metis of_int_le_iff of_int_numeral of_int_power)
  then have step: "(2::real) ^ 52 * 2 powi (L - 52)
      \<le> of_int (round_even (r / 2 powi (L - 52))) * 2 powi (L - 52)"
    by (intro mult_right_mono) simp_all
  have p: "(2::real) ^ 1024 = 2 powi 1024" by simp
  have "(2::real) powi 1024 \<le> 2 powi L" using L by (intro power_int_increasing) simp_all
  also have "\<dots> = 2 ^ 52 * 2 powi (L - 52)" by (simp add: power_int_diff)
  also note step
  finally have "(2::real) ^ 1024 \<le> of_int (round_even (r / 2 powi (L - 52))) * 2 powi (L - 52)"
    unfolding p .
  then have "(2::real) ^ 1024 \<le> \<bar>of_int (round_even (r / 2 powi (L - 52))) * 2 powi (L - 52)\<bar>"
    by linarith
  then show ?thesis
    using r0 unfolding round_double_def u Let_def by (simp only: if_True) simp
qed

text \<open>The exponential of 1024 or more is beyond the largest double.\<close>

lemma exp_overflow:
  assumes "1024 \<le> a"
  shows "round_double (exp a) = PInf"
proof -
  have "(2::real) ^ 1024 \<le> exp 1 ^ 1024"
    using exp_ge_add_one_self[of 1] by (intro power_mono) simp_all
  also have "\<dots> = exp (of_nat 1024 * 1)" by (rule exp_of_nat_mult[symmetric])
  also have "\<dots> \<le> exp a" using assms by simp
  finally show ?thesis by (simp add: round_double_overflow)
qed

lemma rd_0: "round_double 0 = Finite 0"
  by (simp add: round_double_def)

lemma rd_1: "round_double 1 = Finite 1"
  using round_double_exact[of 1 0] by simp

lemma rd_3_2: "round_double (3 / 2) = Finite (3 / 2)"
  using round_double_exact[of 3 "- 1"] by simp

lemma rd_5_2: "round_double (5 / 2) = Finite (5 / 2)"
  using round_double_exact[of 5 "- 1"] by simp

lemma rd_5_4: "round_double (5 / 4) = Finite (5 / 4)"
  using round_double_exact[of 5 "- 2"] by simp

lemma rd_320: "round_double 320 = Finite 320"
  using round_double_exact[of 320 0] by simp

lemma rd_9_4: "round_double (9 / 4) = Finite (9 / 4)"
  using round_double_exact[of 9 "- 2"] by simp

lemma rd_1_4: "round_double (1 / 4) = Finite (1 / 4)"
  using round_double_exact[of 1 "- 2"] by simp

lemma rd_m513_512: "round_double (- (513 / 512)) = Finite (- (513 / 512))"
  using round_double_exact[of "- 513" "- 9"] by simp

lemma rd_m1_512: "round_double (- (1 / 512)) = Finite (- (1 / 512))"
  using round_double_exact[of "- 1" "- 9"] by simp

lemma rd_m1_1024: "round_double (- (1 / 1024)) = Finite (- (1 / 1024))"
  using round_double_exact[of "- 1" "- 10"] by simp

lemma rd_m1_4: "round_double (- (1 / 4)) = Finite (- (1 / 4))"
  using round_double_exact[of "- 1" "- 2"] by simp

lemmas round_double_values =
  rd_0 rd_1 rd_3_2 rd_5_2 rd_5_4 rd_320 rd_9_4 rd_1_4 rd_m513_512 rd_m1_512 rd_m1_1024 rd_m1_4

lemma ceiling_minus_quarter: "\<lceil>- (1 / 4 :: real)\<rceil> = 0"
  by (simp add: ceiling_eq_iff)

lemma floor_minus_quarter: "\<lfloor>- (1 / 4 :: real)\<rfloor> = - 1"
  by (simp add: floor_eq_iff)

section \<open>The loop of the generator\<close>

lemma for_range_append:
  "for_range body (xs @ ys) s =
     (case for_range body xs s of Inl e \<Rightarrow> Inl e | Inr s' \<Rightarrow> for_range body ys s')"
  by (induction xs arbitrary: s) (auto split: sum.splits)

lemma and_255_upper: "\<not> 255 < (v::int) AND 255"
  by (simp add: not_less AND_upper2)

lemma and_255_mod: "(v::int) AND 255 = v mod 256"
proof -
  have "v AND mask 8 = v mod 2 ^ 8"
    by (simp add: take_bit_eq_mod flip: take_bit_eq_mask)
  then show ?thesis by (simp add: mask_eq_exp_minus_1)
qed

lemma trunc_byte_range: "0 \<le> trunc_byte x \<and> trunc_byte x \<le> 255"
  by (simp add: trunc_byte_def AND_upper2 split: sum.splits)

lemma pow2_loop_x:
  "pow2 lib (loop_x lib alpha beta x0 k) =
     (if k = 0 \<and> is_finite x0 \<and> \<not> is_finite (py_square lib x0) then Inl OverflowError
      else Inr ((if k = 0 then py_square lib else np_square lib)
                  (loop_state lib alpha beta x0 k)))"
  by (simp add: loop_x_def)

lemma key_update:
  "k < length key0 \<Longrightarrow> length xs = k \<Longrightarrow>
   (xs @ drop k key0)[k := v] = (xs @ [v]) @ drop (Suc k) key0"
  by (metis Cons_nth_drop_Suc append.assoc append_Cons append_Nil list_update_length)

text \<open>When one pass through the body returns, and what it returns.\<close>

lemma keygen_body_Inr_iff:
  "keygen_body lib alpha beta k (x, key) = Inr s \<longleftrightarrow>
     (\<exists>sq. pow2 lib x = Inr sq \<and> k < length key \<and>
        is_finite (scaled (fadd (np_exp lib (fmul (fneg alpha) sq)) beta)) \<and>
        s = (NpFloat64 (fadd (np_exp lib (fmul (fneg alpha) sq)) beta),
             key[k := trunc_byte (fadd (np_exp lib (fmul (fneg alpha) sq)) beta)]))"
proof (cases "pow2 lib x")
  case (Inl e)
  then show ?thesis by (simp add: keygen_body_def)
next
  case (Inr sq)
  show ?thesis
  proof (cases "scaled (fadd (np_exp lib (fmul (fneg alpha) sq)) beta)")
    case (Finite r)
    then show ?thesis using Inr
      by (auto simp: keygen_body_def Let_def setitem_def trunc_byte_def and_255_upper)
  qed (simp_all add: keygen_body_def Let_def Inr)
qed

text \<open>The body raises \<open>OverflowError\<close> or \<open>ValueError\<close> only.\<close>

lemma keygen_body_Inl:
  assumes "keygen_body lib alpha beta k (x, key) = Inl e" "k < length key"
  shows "e = OverflowError \<or> e = ValueError"
proof (cases "pow2 lib x")
  case (Inl e')
  then show ?thesis using assms(1) by (cases x) (auto simp: keygen_body_def split: if_splits)
next
  case (Inr sq)
  then show ?thesis using assms
    by (cases "scaled (fadd (np_exp lib (fmul (fneg alpha) sq)) beta)")
       (auto simp: keygen_body_def Let_def setitem_def and_255_upper split: if_splits)
qed

text \<open>
  The invariant: after \<open>k\<close> iterations that raised nothing, \<open>x\<close> is the \<open>k\<close>-th state of
  the map and the first \<open>k\<close> bytes of the key are those of the states 1 to \<open>k\<close>.
\<close>

lemma for_range_upt_Inr_iff:
  assumes "k \<le> length key0"
  shows "for_range (keygen_body lib alpha beta) [0..<k] (PyFloat x0, key0) = Inr s \<longleftrightarrow>
           loop_ok lib alpha beta x0 k \<and>
           s = (loop_x lib alpha beta x0 k,
                map (\<lambda>i. trunc_byte (loop_state lib alpha beta x0 (Suc i))) [0..<k] @ drop k key0)"
  using assms
proof (induction k arbitrary: s)
  case 0
  then show ?case by (auto simp: loop_ok_def loop_x_def)
next
  case (Suc k)
  let ?keyk = "map (\<lambda>i. trunc_byte (loop_state lib alpha beta x0 (Suc i))) [0..<k] @ drop k key0"
  have k: "k < length key0" "k \<le> length key0" using Suc.prems by simp_all
  have len: "k < length ?keyk" using k by simp
  have upd: "?keyk[k := v] =
      (map (\<lambda>i. trunc_byte (loop_state lib alpha beta x0 (Suc i))) [0..<k] @ [v]) @ drop (Suc k) key0"
    for v
    using k by (simp add: key_update)
  have ok: "loop_ok lib alpha beta x0 (Suc k) \<longleftrightarrow>
              loop_ok lib alpha beta x0 k \<and> (is_finite x0 \<longrightarrow> is_finite (py_square lib x0)) \<and>
              is_finite (scaled (loop_state lib alpha beta x0 (Suc k)))"
    by (auto simp: loop_ok_def less_Suc_eq)
  show ?case
  proof (cases "for_range (keygen_body lib alpha beta) [0..<k] (PyFloat x0, key0)")
    case (Inl e)
    then have "\<not> loop_ok lib alpha beta x0 k"
      using Suc.IH[OF k(2), of "(loop_x lib alpha beta x0 k, ?keyk)"] by simp
    then show ?thesis using Inl by (simp add: for_range_append ok)
  next
    case (Inr sk)
    then have sk: "loop_ok lib alpha beta x0 k" "sk = (loop_x lib alpha beta x0 k, ?keyk)"
      using Suc.IH[OF k(2), of sk] by simp_all
    have "for_range (keygen_body lib alpha beta) [0..<Suc k] (PyFloat x0, key0)
            = keygen_body lib alpha beta k (loop_x lib alpha beta x0 k, ?keyk)"
      using Inr sk by (simp add: for_range_append split: sum.splits)
    then show ?thesis using sk(1) len
      apply (simp only: keygen_body_Inr_iff pow2_loop_x ok upd)
      apply (cases "k = 0")
       apply (auto simp: loop_x_def loop_ok_def)
      done
  qed
qed

lemma for_range_upt_Inl:
  "for_range (keygen_body lib alpha beta) [0..<k] (PyFloat x0, key0) = Inl e \<Longrightarrow>
   k \<le> length key0 \<Longrightarrow> e = OverflowError \<or> e = ValueError"
proof (induction k)
  case 0
  then show ?case by simp
next
  case (Suc k)
  show ?case
  proof (cases "for_range (keygen_body lib alpha beta) [0..<k] (PyFloat x0, key0)")
    case (Inl e')
    then show ?thesis using Suc by (simp add: for_range_append)
  next
    case (Inr sk)
    then have sk: "sk = (loop_x lib alpha beta x0 k,
        map (\<lambda>i. trunc_byte (loop_state lib alpha beta x0 (Suc i))) [0..<k] @ drop k key0)"
      using for_range_upt_Inr_iff[of k key0 lib alpha beta x0 sk] Suc.prems by simp
    have "keygen_body lib alpha beta k sk = Inl e"
      using Suc.prems(1) Inr by (simp add: for_range_append split: sum.splits)
    then show ?thesis unfolding sk using Suc.prems(2) by (intro keygen_body_Inl) auto
  qed
qed

text \<open>The generator returns exactly when no iteration raises, and then the bytes of the map.\<close>

lemma keygen_Inr_iff:
  "gauss_map_keygen lib n x0 alpha beta = Inr ks \<longleftrightarrow>
     0 \<le> n \<and> n < 2 ^ 63 \<and> loop_ok lib alpha beta x0 (nat n) \<and>
     ks = map (\<lambda>i. trunc_byte (loop_state lib alpha beta x0 (Suc i))) [0..<nat n]"
proof (cases "n < 0 \<or> 2 ^ 63 \<le> n")
  case True
  then show ?thesis by (auto simp: gauss_map_keygen_def bytearray_def)
next
  case False
  have "for_range (keygen_body lib alpha beta) [0..<nat n] (PyFloat x0, replicate (nat n) 0) = Inr s
          \<longleftrightarrow> loop_ok lib alpha beta x0 (nat n) \<and>
          s = (loop_x lib alpha beta x0 (nat n),
               map (\<lambda>i. trunc_byte (loop_state lib alpha beta x0 (Suc i))) [0..<nat n])" for s
    using for_range_upt_Inr_iff[of "nat n" "replicate (nat n) 0" lib alpha beta x0 s] by simp
  moreover have "bytes (map (\<lambda>i. trunc_byte (loop_state lib alpha beta x0 (Suc i))) [0..<nat n])
      = Inr (map (\<lambda>i. trunc_byte (loop_state lib alpha beta x0 (Suc i))) [0..<nat n])"
    by (simp add: bytes_def trunc_byte_range)
  ultimately show ?thesis using False
    by (auto simp: gauss_map_keygen_def bytearray_def split: sum.splits prod.splits)
qed

lemma keygen_Inl:
  "gauss_map_keygen lib n x0 alpha beta = Inl e \<Longrightarrow> e = OverflowError \<or> e = ValueError"
  using for_range_upt_Inl[of lib alpha beta "nat n" x0 "replicate (nat n) 0" e]
  by (auto simp: gauss_map_keygen_def bytearray_def bytes_def split: sum.splits if_splits)

lemma keygen_is_bytes: "gauss_map_keygen lib n x0 alpha beta = Inr ks \<Longrightarrow> is_bytes ks"
  by (auto simp: keygen_Inr_iff is_bytes_def trunc_byte_range simp del: loop_state.simps)

lemma keygen_Inr_length:
  "gauss_map_keygen lib n x0 alpha beta = Inr ks \<Longrightarrow> length ks = nat n \<and> 0 \<le> n"
  by (auto simp: keygen_Inr_iff)

lemma keygen_nth:
  assumes "gauss_map_keygen lib n x0 alpha beta = Inr ks" "i < length ks"
  shows "\<exists>s. scaled (loop_state lib alpha beta x0 (Suc i)) = Finite s \<and>
             ks ! i = (if 0 \<le> s then \<lfloor>s\<rfloor> else \<lceil>s\<rceil>) AND 255"
proof -
  have i: "i < nat n" and ok: "loop_ok lib alpha beta x0 (nat n)"
    and ks: "ks = map (\<lambda>i. trunc_byte (loop_state lib alpha beta x0 (Suc i))) [0..<nat n]"
    using assms by (auto simp: keygen_Inr_iff)
  have "is_finite (scaled (loop_state lib alpha beta x0 (Suc i)))"
    using ok i by (simp add: loop_ok_def)
  then obtain s where s: "scaled (loop_state lib alpha beta x0 (Suc i)) = Finite s"
    by (cases "scaled (loop_state lib alpha beta x0 (Suc i))") auto
  have "ks ! i = trunc_byte (loop_state lib alpha beta x0 (Suc i))" using i by (simp add: ks)
  then show ?thesis using s by (simp add: trunc_byte_def)
qed

section \<open>Rounding within bounds\<close>

lemma round_even_le_ceiling: "round_even y \<le> \<lceil>y\<rceil>"
proof (cases "of_int \<lfloor>y\<rfloor> = y")
  case True
  then have d: "y - of_int \<lfloor>y\<rfloor> = 0" by linarith
  have "round_even y = \<lfloor>y\<rfloor>" by (simp only: round_even_def Let_def d) simp
  then show ?thesis by (simp add: floor_le_ceiling)
next
  case False
  then have "\<lceil>y\<rceil> = \<lfloor>y\<rfloor> + 1" by (simp add: ceiling_altdef)
  then show ?thesis by (simp add: round_even_def Let_def)
qed

text \<open>
  A real of magnitude at most \<open>2 ^ k\<close> rounds to a finite double within the same bound, of
  the same sign, and at most half a unit in the last place away.
\<close>

lemma round_even_near: "\<bar>of_int (round_even y) - y\<bar> \<le> 1 / 2"
proof -
  have "of_int \<lfloor>y\<rfloor> \<le> y" "y < of_int \<lfloor>y\<rfloor> + 1" by linarith+
  then show ?thesis by (auto simp: round_even_def Let_def abs_le_iff)
qed

lemma round_double_bounded:
  assumes "\<bar>r\<bar> \<le> 2 ^ k" "k \<le> 1023"
  shows "\<exists>v. round_double r = Finite v \<and> \<bar>v\<bar> \<le> 2 ^ k \<and> (0 \<le> r \<longrightarrow> 0 \<le> v) \<and> (r \<le> 0 \<longrightarrow> v \<le> 0) \<and>
             \<bar>v - r\<bar> \<le> 2 ^ k / 2 ^ 53"
proof (cases "r = 0")
  case True
  then show ?thesis by (simp add: round_double_def)
next
  case False
  define u where "u = ulp_exp r"
  define y :: real where "y = r / 2 powi u"
  define M where "M = (2::int) ^ nat (int k - u)"
  have "(2::real) ^ k < 2 ^ (k + 1)" by simp
  also have "\<dots> = 2 powi (53 + (int k - 52))" by (simp add: power_int_def nat_add_distrib)
  finally have "\<bar>r\<bar> < 2 powi (53 + (int k - 52))" using assms(1) by linarith
  moreover have "ulp_exp r \<le> max (int k - 52) (- 1074)"
  proof -
    have "log 2 \<bar>r\<bar> < of_int (53 + (int k - 52))"
      using False calculation by (simp add: powi_powr log_less_iff del: of_int_add)
    then have "\<lfloor>log 2 \<bar>r\<bar>\<rfloor> < 53 + (int k - 52)" by (simp add: floor_less_iff)
    then show ?thesis by (simp add: ulp_exp_def)
  qed
  ultimately have uk52: "u \<le> int k - 52" unfolding u_def by simp
  then have uk: "u \<le> int k" by simp
  have pos: "(0::real) < 2 powi u" by simp
  have Mr: "(2::real) ^ k = of_int M * 2 powi u"
  proof -
    have "(2::real) ^ k = 2 powi (int k)" by simp
    also have "\<dots> = 2 powi (int k - u) * 2 powi u" by (simp flip: power_int_add)
    also have "2 powi (int k - u) = (of_int M :: real)" using uk by (simp add: M_def power_int_def)
    finally show ?thesis .
  qed
  have "\<bar>y\<bar> = \<bar>r\<bar> / 2 powi u" by (simp add: y_def)
  also have "\<dots> \<le> 2 ^ k / 2 powi u" using assms(1) pos by (simp add: divide_right_mono)
  also have "\<dots> = of_int M" using Mr pos by simp
  finally have yM: "\<bar>y\<bar> \<le> of_int M" .
  have up: "round_even y \<le> M"
  proof -
    have "y \<le> of_int M" using yM by linarith
    then have "\<lceil>y\<rceil> \<le> M" by (simp add: ceiling_le_iff)
    then show ?thesis using round_even_le_ceiling[of y] by linarith
  qed
  have lo: "- M \<le> round_even y"
  proof -
    have "of_int (- M) \<le> y" using yM by simp
    then have "- M \<le> \<lfloor>y\<rfloor>" by (simp add: le_floor_iff)
    then show ?thesis using round_even_ge_floor[of y] by linarith
  qed
  define v :: real where "v = of_int (round_even y) * 2 powi u"
  have "\<bar>of_int (round_even y) :: real\<bar> \<le> of_int M" using up lo by linarith
  then have "\<bar>v\<bar> \<le> of_int M * 2 powi u"
    unfolding v_def abs_mult using pos by (simp add: mult_right_mono)
  then have vk: "\<bar>v\<bar> \<le> 2 ^ k" using Mr by simp
  have "(2::real) ^ k < 2 ^ 1024" using assms(2) by (intro power_strict_increasing) simp_all
  then have nov: "\<not> 2 ^ 1024 \<le> \<bar>v\<bar>" using vk by linarith
  have rd: "round_double r = Finite v"
    using False nov unfolding round_double_def Let_def u_def[symmetric] y_def[symmetric] v_def[symmetric]
    by (simp only: if_False)
  have s1: "0 \<le> r \<Longrightarrow> 0 \<le> v"
  proof -
    assume "0 \<le> r"
    then have "0 \<le> y" using pos by (simp add: y_def)
    then have "0 \<le> \<lfloor>y\<rfloor>" by simp
    then have "0 \<le> round_even y" using round_even_ge_floor[of y] by linarith
    then show "0 \<le> v" using pos by (simp add: v_def)
  qed
  have s2: "r \<le> 0 \<Longrightarrow> v \<le> 0"
  proof -
    assume "r \<le> 0"
    then have "y \<le> 0" using pos by (simp add: y_def divide_le_0_iff)
    then have "\<lceil>y\<rceil> \<le> 0" by (simp add: ceiling_le_iff)
    then have "round_even y \<le> 0" using round_even_le_ceiling[of y] by linarith
    then show "v \<le> 0" using pos by (simp add: v_def mult_le_0_iff)
  qed
  have half: "\<bar>of_int (round_even y) - y\<bar> \<le> 1 / 2" by (rule round_even_near)
  have "v - r = (of_int (round_even y) - y) * 2 powi u"
    using pos by (simp add: v_def y_def algebra_simps)
  then have "\<bar>v - r\<bar> = \<bar>of_int (round_even y) - y\<bar> * 2 powi u"
    using pos by (simp add: abs_mult)
  also have "\<dots> \<le> 1 / 2 * 2 powi u" using half pos by (intro mult_right_mono) simp_all
  also have "\<dots> \<le> 1 / 2 * 2 powi (int k - 52)"
    using uk52 by (intro mult_left_mono power_int_increasing) simp_all
  also have "\<dots> = 2 ^ k / 2 ^ 53" by (simp add: power_int_diff)
  finally have err: "\<bar>v - r\<bar> \<le> 2 ^ k / 2 ^ 53" .
  show ?thesis using rd vk s1 s2 err by blast
qed

lemma round_double_nonpos:
  assumes "r \<le> 0"
  shows "round_double r = NInf \<or> (\<exists>t. round_double r = Finite t \<and> t \<le> 0)"
proof (cases "r = 0")
  case True
  then show ?thesis by (simp add: round_double_def)
next
  case False
  define u where "u = ulp_exp r"
  define y :: real where "y = r / 2 powi u"
  have "y \<le> 0" using assms by (simp add: y_def divide_le_0_iff)
  then have "\<lceil>y\<rceil> \<le> 0" by (simp add: ceiling_le_iff)
  then have "round_even y \<le> 0" using round_even_le_ceiling[of y] by linarith
  then have "of_int (round_even y) * 2 powi u \<le> (0::real)" by (simp add: mult_le_0_iff)
  then show ?thesis
    using False assms unfolding round_double_def Let_def u_def[symmetric] y_def[symmetric]
    by auto
qed



section \<open>Libraries that keep the states bounded\<close>

lemma of_libm_to_option:
  "0 \<le> s \<Longrightarrow> of_libm (to_option (round_double s)) = round_double s"
  by (auto simp: of_libm_def to_option_def round_double_def Let_def)

lemma py_square_rounding: "py_square rounding_libm (Finite a) = round_double (a * a)"
  by (simp add: rounding_libm_def of_libm_to_option rd_0 abs_mult flip: abs_mult)

lemma np_square_rounding: "np_square rounding_libm (Finite a) = round_double (a * a)"
  by (simp add: rounding_libm_def of_libm_to_option rd_0)

lemma np_exp_rounding: "np_exp rounding_libm (Finite a) = round_double (exp a)"
  by (simp add: rounding_libm_def of_libm_to_option rd_1)

lemma rounding_libm_accurate: "lib_accurate rounding_libm"
proof -
  have sq: "\<exists>v. to_option (round_double (r * r)) = Some v \<and> 0 \<le> v \<and> \<bar>v - r * r\<bar> \<le> 1 / 2 ^ 45"
    if "\<bar>r\<bar> \<le> 4" for r :: real
  proof -
    have "\<bar>r\<bar> * \<bar>r\<bar> \<le> 4 * 4" using that by (intro mult_mono) simp_all
    then have "\<bar>r * r\<bar> \<le> 2 ^ 4" by (simp add: abs_mult)
    then obtain v where v: "round_double (r * r) = Finite v" "0 \<le> r * r \<longrightarrow> 0 \<le> v"
      "\<bar>v - r * r\<bar> \<le> 2 ^ 4 / 2 ^ 53"
      using round_double_bounded[of "r * r" 4] by auto
    have "(2::real) ^ 4 / 2 ^ 53 \<le> 1 / 2 ^ 45" by simp
    then show ?thesis using v by (auto simp: to_option_def)
  qed
  have ex: "\<exists>e. to_option (round_double (exp t)) = Some e \<and> 0 \<le> e \<and> \<bar>e - exp t\<bar> \<le> 1 / 2 ^ 45"
    if "t < 0" for t :: real
  proof -
    have "\<bar>exp t\<bar> \<le> 2 ^ 0" using that by simp
    then obtain v where v: "round_double (exp t) = Finite v" "0 \<le> exp t \<longrightarrow> 0 \<le> v"
      "\<bar>v - exp t\<bar> \<le> 2 ^ 0 / 2 ^ 53"
      using round_double_bounded[of "exp t" 0] by auto
    have "(2::real) ^ 0 / 2 ^ 53 \<le> 1 / 2 ^ 45" by simp
    then show ?thesis using v by (auto simp: to_option_def)
  qed
  show ?thesis
    unfolding lib_accurate_def rounding_libm_def using sq ex by (simp add: abs_mult flip: abs_mult)
qed

lemma exp_lipschitz:
  fixes u w :: real
  assumes "u \<le> 0" "w \<le> 0"
  shows "\<bar>exp u - exp w\<bar> \<le> \<bar>u - w\<bar>"
proof -
  have main: "exp p - exp q \<le> p - q" if "q \<le> p" "p \<le> 0" for p q :: real
  proof -
    have "1 + (q - p) \<le> exp (q - p)" by (rule exp_ge_add_one_self)
    then have le: "1 - exp (q - p) \<le> p - q" by linarith
    have eq: "exp p - exp q = exp p * (1 - exp (q - p))"
      by (simp add: algebra_simps flip: exp_add)
    have nn: "0 \<le> 1 - exp (q - p)" using that by simp
    have "exp p \<le> 1" using that by simp
    then have "exp p * (1 - exp (q - p)) \<le> 1 * (1 - exp (q - p))"
      using nn by (rule mult_right_mono)
    then have "exp p - exp q \<le> 1 - exp (q - p)" using eq by simp
    then show ?thesis using le by linarith
  qed
  show ?thesis
  proof (cases "w \<le> u")
    case True
    then show ?thesis using main[OF True assms(1)] by simp
  next
    case False
    then have "u \<le> w" by simp
    then show ?thesis using main[OF _ assms(2), of u] by simp
  qed
qed

lemma py_square_accurate:
  assumes "lib_accurate lib" "\<bar>r\<bar> \<le> 4"
  shows "\<exists>v. py_square lib (Finite r) = Finite v \<and> 0 \<le> v \<and> \<bar>v - r * r\<bar> \<le> 1 / 2 ^ 45"
proof (cases "r = 0")
  case True
  then show ?thesis by simp
next
  case False
  then obtain v where "libm_pow2 lib \<bar>r\<bar> = Some v" "0 \<le> v" "\<bar>v - r * r\<bar> \<le> 1 / 2 ^ 45"
    using assms unfolding lib_accurate_def by blast
  then show ?thesis using False by (simp add: of_libm_def)
qed

lemma np_square_accurate:
  assumes "lib_accurate lib" "\<bar>r\<bar> \<le> 4"
  shows "\<exists>v. np_square lib (Finite r) = Finite v \<and> 0 \<le> v \<and> \<bar>v - r * r\<bar> \<le> 1 / 2 ^ 45"
proof (cases "r = 0")
  case True
  then show ?thesis by simp
next
  case False
  then obtain v where "np_pow2 lib r = Some v" "0 \<le> v" "\<bar>v - r * r\<bar> \<le> 1 / 2 ^ 45"
    using assms unfolding lib_accurate_def by blast
  then show ?thesis using False by (simp add: of_libm_def)
qed

lemma np_exp_accurate:
  assumes "lib_accurate lib" "p \<le> 0"
  shows "\<exists>e. np_exp lib (Finite p) = Finite e \<and> 0 \<le> e \<and> \<bar>e - exp p\<bar> \<le> 1 / 2 ^ 45"
proof (cases "p = 0")
  case True
  then show ?thesis by simp
next
  case False
  then have "p < 0" using assms(2) by simp
  then obtain e where "np_exp_fin lib p = Some e" "0 \<le> e" "\<bar>e - exp p\<bar> \<le> 1 / 2 ^ 45"
    using assms(1) unfolding lib_accurate_def by blast
  then show ?thesis using False by (simp add: of_libm_def)
qed

text \<open>The update keeps a state within \<open>[-4, 4]\<close>.\<close>

lemma update_bounded:
  assumes acc: "lib_accurate lib" and "0 \<le> v" "0 \<le> a" "\<bar>b\<bar> \<le> 1"
  shows "\<exists>r'. fadd (np_exp lib (fmul (fneg (Finite a)) (Finite v))) (Finite b) = Finite r' \<and> \<bar>r'\<bar> \<le> 4"
proof -
  have "- a * v \<le> 0" using assms(2,3) by (simp add: mult_nonneg_nonneg)
  then have "round_double (- a * v) = NInf \<or> (\<exists>t. round_double (- a * v) = Finite t \<and> t \<le> 0)"
    by (rule round_double_nonpos)
  then have "\<exists>e. np_exp lib (round_double (- a * v)) = Finite e \<and> 0 \<le> e \<and> e \<le> 1 + 1 / 2 ^ 45"
  proof
    assume "round_double (- a * v) = NInf"
    then show ?thesis by simp
  next
    assume "\<exists>t. round_double (- a * v) = Finite t \<and> t \<le> 0"
    then obtain t where t: "round_double (- a * v) = Finite t" "t \<le> 0" by blast
    obtain e where e: "np_exp lib (Finite t) = Finite e" "0 \<le> e" "\<bar>e - exp t\<bar> \<le> 1 / 2 ^ 45"
      using np_exp_accurate[OF acc t(2)] by blast
    have "exp t \<le> 1" using t(2) by simp
    then have "e \<le> 1 + 1 / 2 ^ 45" using e(3) by linarith
    then show ?thesis using t(1) e by simp
  qed
  then obtain e where e: "np_exp lib (round_double (- a * v)) = Finite e" "0 \<le> e" "e \<le> 1 + 1 / 2 ^ 45"
    by blast
  have "\<bar>e + b\<bar> \<le> 2 ^ 2" using e(2,3) assms(4) by simp
  then obtain r' where "round_double (e + b) = Finite r'" "\<bar>r'\<bar> \<le> 2 ^ 2"
    using round_double_bounded[of "e + b" 2] by auto
  then show ?thesis using e(1) by simp
qed

text \<open>
  The update is the Gaussian map of the specification, up to the rounding of the four
  operations: within \<open>2 ^ -40\<close> on a state in \<open>[-4, 4]\<close> and \<open>alpha\<close> in \<open>[0, 16]\<close>.
\<close>

lemma update_accurate:
  assumes acc: "lib_accurate lib"
    and v: "0 \<le> v" "\<bar>v - r * r\<bar> \<le> 1 / 2 ^ 45" and r: "\<bar>r\<bar> \<le> 4"
    and a: "0 \<le> a" "a \<le> 16" and b: "\<bar>b\<bar> \<le> 1"
  shows "\<exists>r'. fadd (np_exp lib (fmul (fneg (Finite a)) (Finite v))) (Finite b) = Finite r' \<and>
              \<bar>r' - spec_gauss_map a b r\<bar> \<le> 1 / 2 ^ 40"
proof -
  have rr: "r * r \<le> 16"
  proof -
    have "\<bar>r\<bar> * \<bar>r\<bar> \<le> 4 * 4" using r by (intro mult_mono) simp_all
    then show ?thesis by (simp flip: abs_mult)
  qed
  have small: "(1::real) / 2 ^ 45 \<le> 1" by simp
  have v17: "v \<le> 17" using v(2) rr small by linarith
  have av: "a * v \<le> 16 * 17" using a v17 v(1) by (intro mult_mono) simp_all
  have "0 \<le> a * v" using a(1) v(1) by simp
  then have "\<bar>- a * v\<bar> \<le> 2 ^ 9" using av by simp
  then obtain p where p: "round_double (- a * v) = Finite p" "p \<le> 0"
    "\<bar>p - (- a * v)\<bar> \<le> 2 ^ 9 / 2 ^ 53"
    using round_double_bounded[of "- a * v" 9] \<open>0 \<le> a * v\<close> by auto
  obtain e where e: "np_exp lib (Finite p) = Finite e" "0 \<le> e" "\<bar>e - exp p\<bar> \<le> 1 / 2 ^ 45"
    using np_exp_accurate[OF acc p(2)] by blast
  have "a * \<bar>v - r * r\<bar> \<le> 16 * (1 / 2 ^ 45)" using a v(2) by (intro mult_mono) simp_all
  then have "\<bar>a * v - a * (r * r)\<bar> \<le> 16 / 2 ^ 45"
    using a(1) by (simp add: abs_mult flip: right_diff_distrib)
  then have pd: "\<bar>p - (- (a * (r * r)))\<bar> \<le> 2 ^ 9 / 2 ^ 53 + 16 / 2 ^ 45" using p(3) by linarith
  have "0 \<le> a * (r * r)" using a(1) by simp
  then have "\<bar>exp p - exp (- (a * (r * r)))\<bar> \<le> \<bar>p - (- (a * (r * r)))\<bar>"
    using p(2) by (intro exp_lipschitz) simp_all
  then have ed: "\<bar>e - exp (- (a * (r * r)))\<bar> \<le> 1 / 2 ^ 45 + 2 ^ 9 / 2 ^ 53 + 16 / 2 ^ 45"
    using e(3) pd by linarith
  have "exp p \<le> 1" using p(2) by simp
  then have "e \<le> 1 + 1 / 2 ^ 45" using e(3) by linarith
  then have "\<bar>e + b\<bar> \<le> 2 ^ 2" using e(2) b by simp
  then obtain r' where r': "round_double (e + b) = Finite r'" "\<bar>r' - (e + b)\<bar> \<le> 2 ^ 2 / 2 ^ 53"
    using round_double_bounded[of "e + b" 2] by auto
  have "\<bar>r' - (exp (- (a * (r * r))) + b)\<bar> \<le> 2 ^ 2 / 2 ^ 53 + (1 / 2 ^ 45 + 2 ^ 9 / 2 ^ 53 + 16 / 2 ^ 45)"
    using r'(2) ed by linarith
  also have "\<dots> \<le> 1 / 2 ^ 40" by simp
  finally have "\<bar>r' - spec_gauss_map a b r\<bar> \<le> 1 / 2 ^ 40" by (simp add: spec_gauss_map_def)
  then show ?thesis using p(1) e(1) r'(1) by simp
qed

lemma scaled_bounded:
  assumes "\<bar>r\<bar> \<le> 4"
  shows "is_finite (scaled (Finite r))"
proof -
  have "\<bar>r + 1\<bar> \<le> 2 ^ 3" using assms by simp
  then obtain p where p: "round_double (r + 1) = Finite p" "\<bar>p\<bar> \<le> 2 ^ 3"
    using round_double_bounded[of "r + 1" 3] by auto
  have "\<bar>p / 2\<bar> \<le> 2 ^ 2" using p(2) by simp
  then obtain h where h: "round_double (p / 2) = Finite h" "\<bar>h\<bar> \<le> 2 ^ 2"
    using round_double_bounded[of "p / 2" 2] by auto
  have "\<bar>h * 256\<bar> \<le> 2 ^ 10" using h(2) by simp
  then obtain q where "round_double (h * 256) = Finite q"
    using round_double_bounded[of "h * 256" 10] by auto
  then show ?thesis using p h by (simp add: scaled_def)
qed

text \<open>Every state of the loop: finite, within \<open>[-4, 4]\<close>, and one Gaussian step from the last.\<close>

lemma loop_state_bounded:
  assumes "lib_accurate lib" "\<bar>x0\<bar> \<le> 1" "0 \<le> a" "\<bar>b\<bar> \<le> 1"
  shows "\<exists>r. loop_state lib (Finite a) (Finite b) (Finite x0) k = Finite r \<and> \<bar>r\<bar> \<le> 4"
proof (induction k)
  case 0
  then show ?case using assms(2) by simp
next
  case (Suc k)
  then obtain r where r: "loop_state lib (Finite a) (Finite b) (Finite x0) k = Finite r" "\<bar>r\<bar> \<le> 4"
    by blast
  obtain v where "(if k = 0 then py_square lib else np_square lib) (Finite r) = Finite v" "0 \<le> v"
    using py_square_accurate[OF assms(1) r(2)] np_square_accurate[OF assms(1) r(2)]
    by (cases "k = 0") auto
  then show ?case using update_bounded[OF assms(1) _ assms(3,4), of v] r(1) by simp
qed

lemma loop_state_accurate:
  assumes "lib_accurate lib" "\<bar>x0\<bar> \<le> 1" "0 \<le> a" "a \<le> 16" "\<bar>b\<bar> \<le> 1"
  shows "\<exists>r r'. loop_state lib (Finite a) (Finite b) (Finite x0) k = Finite r \<and>
           loop_state lib (Finite a) (Finite b) (Finite x0) (Suc k) = Finite r' \<and>
           \<bar>r' - spec_gauss_map a b r\<bar> \<le> 1 / 2 ^ 40"
proof -
  obtain r where r: "loop_state lib (Finite a) (Finite b) (Finite x0) k = Finite r" "\<bar>r\<bar> \<le> 4"
    using loop_state_bounded[OF assms(1,2,3,5)] by blast
  obtain v where v: "(if k = 0 then py_square lib else np_square lib) (Finite r) = Finite v"
    "0 \<le> v" "\<bar>v - r * r\<bar> \<le> 1 / 2 ^ 45"
    using py_square_accurate[OF assms(1) r(2)] np_square_accurate[OF assms(1) r(2)]
    by (cases "k = 0") auto
  obtain r' where "fadd (np_exp lib (fmul (fneg (Finite a)) (Finite v))) (Finite b) = Finite r'"
    "\<bar>r' - spec_gauss_map a b r\<bar> \<le> 1 / 2 ^ 40"
    using update_accurate[OF assms(1) v(2,3) r(2) assms(3,4,5)] by blast
  then show ?thesis using r(1) v(1) by simp
qed

lemma keygen_total_on_domain:
  assumes "lib_accurate lib" "0 \<le> n" "n < 2 ^ 63" "\<bar>x0\<bar> \<le> 1" "0 \<le> a" "\<bar>b\<bar> \<le> 1"
  shows "\<exists>ks. gauss_map_keygen lib n (Finite x0) (Finite a) (Finite b) = Inr ks"
proof -
  have "\<bar>x0\<bar> \<le> 4" using assms(4) by simp
  then have "is_finite (py_square lib (Finite x0))"
    using py_square_accurate[OF assms(1), of x0] by auto
  moreover have "is_finite (scaled (loop_state lib (Finite a) (Finite b) (Finite x0) (Suc i)))" for i
    using loop_state_bounded[OF assms(1,4,5,6), of "Suc i"] scaled_bounded by metis
  ultimately show ?thesis using assms(2,3) by (simp add: keygen_Inr_iff loop_ok_def del: loop_state.simps)
qed

section \<open>The first iteration that raises\<close>


lemma loop_ok_mono: "loop_ok lib alpha beta x0 k \<Longrightarrow> j \<le> k \<Longrightarrow> 0 < j \<Longrightarrow> loop_ok lib alpha beta x0 j"
  by (auto simp: loop_ok_def simp del: loop_state.simps)



text \<open>The state and the key after the iteration that writes byte \<open>i\<close> of a returned key.\<close>

lemma keygen_prefix:
  assumes "gauss_map_keygen lib n x0 alpha beta = Inr ks" "k \<le> length ks"
  shows "for_range (keygen_body lib alpha beta) [0..<k] (PyFloat x0, replicate (nat n) 0)
           = Inr (loop_x lib alpha beta x0 k,
                  map (\<lambda>i. trunc_byte (loop_state lib alpha beta x0 (Suc i))) [0..<k]
                    @ replicate (nat n - k) 0)"
proof -
  have n: "length ks = nat n" and ok: "loop_ok lib alpha beta x0 (nat n)"
    using assms(1) by (auto simp: keygen_Inr_iff simp del: loop_state.simps)
  have "loop_ok lib alpha beta x0 k"
    using ok assms(2) n by (auto simp: loop_ok_def simp del: loop_state.simps)
  then show ?thesis
    using for_range_upt_Inr_iff[of k "replicate (nat n) 0" lib alpha beta x0] assms(2) n
    by (simp del: loop_state.simps)
qed

section \<open>Runs of the generator on concrete parameters\<close>

lemmas rounding_libm_simps = py_square_rounding np_square_rounding np_exp_rounding

lemma upt_3: "[0..<3] = [0, Suc 0, Suc (Suc 0)]"
  by (simp add: upt_rec)


lemma replicate_3: "replicate 3 x = [x, x, x]"
  by (simp add: numeral_3_eq_3)

lemma replicate_2: "replicate 2 x = [x, x]"
  by (simp add: numeral_2_eq_2)

lemma keygen_example:
  "gauss_map_keygen rounding_libm 3 (Finite 0) (Finite 0) (Finite (1 / 2)) = Inr [64, 64, 64]"
  by (simp add: gauss_map_keygen_def bytearray_def keygen_body_def scaled_def setitem_def
      bytes_def rounding_libm_simps round_double_values upt_3 replicate_3 Let_def
      del: py_square.simps np_square.simps np_exp.simps)

lemma scaled_example:
  "scaled (loop_state rounding_libm (Finite 0) (Finite (1 / 2)) (Finite 0) (Suc 0)) = Finite 320"
  by (simp add: scaled_def rounding_libm_simps round_double_values
      del: py_square.simps np_square.simps np_exp.simps)

text \<open>
  From the seed \<open>0.0\<close> the first iteration asks nothing of the library:
  \<open>0.0 ** 2 = 0.0\<close>, \<open>exp(-alpha * 0.0) = 1.0\<close>, and the state is \<open>1.0 + beta\<close>.
\<close>

lemma loop_state_seed_zero:
  "loop_state lib (Finite a) beta (Finite 0) (Suc 0) = fadd (Finite 1) beta"
  by (simp add: rd_0)

lemma keygen_seed_zero:
  "gauss_map_keygen lib 1 (Finite 0) (Finite a) beta =
     (case py_int (scaled (fadd (Finite 1) beta)) of
        Inl e \<Rightarrow> Inl e
      | Inr v \<Rightarrow> Inr [v AND 255])"
  by (simp add: gauss_map_keygen_def bytearray_def keygen_body_def setitem_def bytes_def rd_0
      and_255_upper split: sum.splits)

lemma keygen_negative_scaled:
  "gauss_map_keygen lib 1 (Finite 0) (Finite 0) (Finite (- (1025 / 512))) = Inr [0]"
  by (simp add: keygen_seed_zero scaled_def round_double_values ceiling_minus_quarter)

lemma scaled_negative:
  "scaled (loop_state lib (Finite 0) (Finite (- (1025 / 512))) (Finite 0) (Suc 0))
     = Finite (- (1 / 4))"
  by (simp add: scaled_def round_double_values)







lemma keygen_overflow:
  "gauss_map_keygen rounding_libm 1 (Finite (1 / 2)) (Finite (- (2 ^ 1023))) (Finite 0)
     = Inl OverflowError"
proof -
  have a: "round_double (2 ^ 1023 / 4) = Finite (2 ^ 1021)"
    using round_double_exact[of "2 ^ 52" 969] by simp
  have b: "round_double (exp (2 ^ 1021)) = PInf" by (rule exp_overflow) simp
  show ?thesis
    using a b
    by (simp add: gauss_map_keygen_def bytearray_def keygen_body_def scaled_def setitem_def
        rounding_libm_simps round_double_values Let_def
        del: py_square.simps np_square.simps np_exp.simps)
qed











section \<open>The XOR of two byte sequences\<close>

lemma xor_byte:
  "0 \<le> (d::int) \<Longrightarrow> d \<le> 255 \<Longrightarrow> 0 \<le> k \<Longrightarrow> k \<le> 255 \<Longrightarrow> 0 \<le> d XOR k \<and> d XOR k \<le> 255"
  using XOR_upper[of d 8 k] by simp

lemma xor_zip_is_bytes:
  "is_bytes ds \<Longrightarrow> is_bytes ks \<Longrightarrow> is_bytes (map (\<lambda>(d, k). d XOR k) (zip ds ks))"
  unfolding is_bytes_def by (auto simp: set_zip xor_byte)

lemma xor_zip_twice:
  "length ds = length ks \<Longrightarrow>
   map (\<lambda>(d, k). d XOR k) (zip (map (\<lambda>(d, k). d XOR k) (zip ds ks)) ks) = (ds :: int list)"
  by (induction ds ks rule: list_induct2) (simp_all add: xor.assoc)

lemma bytes_is_bytes: "is_bytes vs \<Longrightarrow> bytes vs = Inr vs"
  by (simp add: bytes_def is_bytes_def)

lemma bytes_Inr: "bytes vs = Inr r \<Longrightarrow> r = vs"
  by (simp add: bytes_def split: if_splits)

lemma xor_transform_Inr:
  "xor_transform lib ds x0 alpha beta = Inr r \<Longrightarrow>
     \<exists>ks. gauss_map_keygen lib (int (length ds)) x0 alpha beta = Inr ks \<and>
          r = map (\<lambda>(d, k). d XOR k) (zip ds ks)"
  by (auto simp: xor_transform_def split: sum.splits dest: bytes_Inr)

lemma xor_transform_twice:
  assumes "is_bytes ds" "xor_transform lib ds x0 alpha beta = Inr r"
  shows "xor_transform lib r x0 alpha beta = Inr ds"
proof -
  obtain ks where ks: "gauss_map_keygen lib (int (length ds)) x0 alpha beta = Inr ks"
    and r: "r = map (\<lambda>(d, k). d XOR k) (zip ds ks)"
    using xor_transform_Inr[OF assms(2)] by blast
  have len: "length ks = length ds" using keygen_Inr_length[OF ks] by simp
  then have lr: "length r = length ds" by (simp add: r)
  have "map (\<lambda>(d, k). d XOR k) (zip r ks) = ds"
    unfolding r using len by (simp add: xor_zip_twice)
  then show ?thesis using ks assms(1) lr by (simp add: xor_transform_def bytes_is_bytes)
qed

lemma xor_transform_total_on_domain:
  assumes "lib_accurate lib" "is_bytes ds" "\<bar>x0\<bar> \<le> 1" "0 \<le> a" "\<bar>b\<bar> \<le> 1"
  shows "\<exists>r. xor_transform lib ds (Finite x0) (Finite a) (Finite b) = Inr r \<and>
             xor_transform lib r (Finite x0) (Finite a) (Finite b) = Inr ds"
proof -
  obtain ks where ks: "gauss_map_keygen lib (int (length ds)) (Finite x0) (Finite a) (Finite b) = Inr ks"
    using keygen_total_on_domain[OF assms(1) _ _ assms(3,4,5), of "int (length ds)"] assms(2)
    by (auto simp: is_bytes_def)
  have "is_bytes (map (\<lambda>(d, k). d XOR k) (zip ds ks))"
    using assms(2) keygen_is_bytes[OF ks] by (rule xor_zip_is_bytes)
  then have r: "xor_transform lib ds (Finite x0) (Finite a) (Finite b)
      = Inr (map (\<lambda>(d, k). d XOR k) (zip ds ks))"
    using ks by (simp add: xor_transform_def bytes_is_bytes)
  show ?thesis using r xor_transform_twice[OF assms(2) r] by blast
qed

lemma is_bytes_example: "is_bytes [0, 255, 66]"
  by (simp add: is_bytes_def)

lemma xor_transform_example:
  "xor_transform rounding_libm [0, 255, 66] (Finite 0) (Finite 0) (Finite (1 / 2))
     = Inr [64, 191, 2]"
  by (simp add: xor_transform_def keygen_example bytes_def)

text \<open>
  On files: what \<open>chaotic_encrypt_decrypt\<close> wrote is turned back into the input by a
  second call with the same parameters, also when the output path is the input path.
\<close>

lemma file_round_trip:
  assumes "files input_path = Some d" "is_bytes d"
    and "chaotic_encrypt_decrypt lib files input_path output_path x0 alpha beta = Inr files'"
  shows "\<exists>files''. chaotic_encrypt_decrypt lib files' output_path restored_path x0 alpha beta
           = Inr files'' \<and> files'' restored_path = Some d"
proof -
  obtain r where r: "xor_transform lib d x0 alpha beta = Inr r"
    and f: "files' = files(output_path \<mapsto> r)"
    using assms(1,3) by (auto simp: chaotic_encrypt_decrypt_def split: sum.splits)
  have "xor_transform lib r x0 alpha beta = Inr d" by (rule xor_transform_twice[OF assms(2) r])
  then show ?thesis by (simp add: chaotic_encrypt_decrypt_def f)
qed

section \<open>Further runs, and the state behind each byte\<close>

lemma representable_half: "representable (1 / 2)"
  unfolding representable_def by (rule exI[of _ 1], rule exI[of _ "- 1"]) simp

lemma representable_0: "representable 0"
  unfolding representable_def by (rule exI[of _ 0], rule exI[of _ 0]) simp

lemma representable_big: "representable (- (2 ^ 1023))"
  unfolding representable_def by (rule exI[of _ "- (2 ^ 52)"], rule exI[of _ 971]) simp


lemma representable_beta: "representable (- (1025 / 512))"
  unfolding representable_def by (rule exI[of _ "- 1025"], rule exI[of _ "- 9"]) simp







text \<open>The state and the buffer after iteration \<open>i\<close> of a run that returns.\<close>

lemma keygen_state_byte:
  assumes "gauss_map_keygen lib n x0 alpha beta = Inr ks" "i < length ks"
  shows "\<exists>key s. for_range (keygen_body lib alpha beta) [0..<Suc i]
                    (PyFloat x0, replicate (nat n) 0)
                  = Inr (NpFloat64 (loop_state lib alpha beta x0 (Suc i)), key) \<and>
                scaled (loop_state lib alpha beta x0 (Suc i)) = Finite s \<and>
                key ! i = ks ! i \<and>
                ks ! i = (if 0 \<le> s then \<lfloor>s\<rfloor> else \<lceil>s\<rceil>) AND 255"
proof -
  let ?bs = "map (\<lambda>i. trunc_byte (loop_state lib alpha beta x0 (Suc i))) [0..<Suc i]"
  have pre: "for_range (keygen_body lib alpha beta) [0..<Suc i] (PyFloat x0, replicate (nat n) 0)
      = Inr (loop_x lib alpha beta x0 (Suc i), ?bs @ replicate (nat n - Suc i) 0)"
    using keygen_prefix[OF assms(1), of "Suc i"] assms(2) by simp
  obtain s where s: "scaled (loop_state lib alpha beta x0 (Suc i)) = Finite s"
    and b: "ks ! i = (if 0 \<le> s then \<lfloor>s\<rfloor> else \<lceil>s\<rceil>) AND 255"
    using keygen_nth[OF assms] by blast
  have "ks ! i = trunc_byte (loop_state lib alpha beta x0 (Suc i))"
    using assms by (auto simp: keygen_Inr_iff simp del: loop_state.simps)
  moreover have "(?bs @ replicate (nat n - Suc i) 0) ! i = ?bs ! i"
    by (simp add: nth_append del: loop_state.simps upt_Suc)
  moreover have "?bs ! i = trunc_byte (loop_state lib alpha beta x0 (Suc i))"
    by (simp only: nth_map_upt) (simp del: loop_state.simps)
  ultimately have "(?bs @ replicate (nat n - Suc i) 0) ! i = ks ! i" by simp
  then show ?thesis using pre s b by (simp add: loop_x_def del: loop_state.simps upt_Suc)
qed

text \<open>The seed is read through its square only.\<close>

lemma py_square_fneg: "py_square lib (fneg x) = py_square lib x"
  by (cases x) simp_all

lemma is_finite_fneg: "is_finite (fneg x) = is_finite x"
  by (cases x) simp_all

lemma keygen_body_fneg:
  "keygen_body lib alpha beta i (PyFloat (fneg x0), key)
     = keygen_body lib alpha beta i (PyFloat x0, key)"
  by (simp add: keygen_body_def py_square_fneg is_finite_fneg)

section \<open>The claims\<close>

text \<open>
  C1, as amended.  Involution: for every byte sequence \<open>d\<close> and every parameter triple for
  which the transform of \<open>d\<close> returns (the keystream generator does not raise), the
  transform of the result with the same parameters returns \<open>d\<close>.  For a seed in
  \<open>[-1, 1]\<close>, \<open>alpha \<ge> 0\<close> and \<open>beta\<close> in \<open>[-1, 1]\<close> the transform returns, and so does
  the round trip, with every library accurate to \<open>2 ^ -45\<close>.
\<close>

theorem xor_transform_involution:
  "(is_bytes d \<and> xor_transform lib d x0 alpha beta = Inr r \<longrightarrow>
      xor_transform lib r x0 alpha beta = Inr d) \<and>
   (lib_accurate lib \<and> is_bytes d \<and> \<bar>s\<bar> \<le> 1 \<and> 0 \<le> a \<and> \<bar>b\<bar> \<le> 1 \<longrightarrow>
      (\<exists>r'. xor_transform lib d (Finite s) (Finite a) (Finite b) = Inr r' \<and>
            xor_transform lib r' (Finite s) (Finite a) (Finite b) = Inr d))"
  using xor_transform_twice[of d lib x0 alpha beta r] xor_transform_total_on_domain[of lib d s a b]
  by blast

theorem xor_transform_involution_witness:
  "is_bytes [0, 255, 66] \<and>
   xor_transform rounding_libm [0, 255, 66] (Finite 0) (Finite 0) (Finite (1 / 2))
     = Inr [64, 191, 2] \<and>
   xor_transform rounding_libm [64, 191, 2] (Finite 0) (Finite 0) (Finite (1 / 2))
     = Inr [0, 255, 66] \<and>
   lib_accurate rounding_libm"
proof -
  have "xor_transform rounding_libm [64, 191, 2] (Finite 0) (Finite 0) (Finite (1 / 2))
          = Inr [0, 255, 66]"
    by (rule xor_transform_involution[THEN conjunct1, THEN mp,
          OF conjI[OF is_bytes_example xor_transform_example]])
  then show ?thesis
    using is_bytes_example xor_transform_example rounding_libm_accurate by blast
qed

text \<open>
  C1 as stated fails: on the finite parameters \<open>x0 = 0.5\<close>, \<open>alpha = -2 ** 1023\<close>,
  \<open>beta = 0.0\<close> the transform of the one byte \<open>0x42\<close> raises \<open>OverflowError\<close>, so applying
  it twice does not return the data.
\<close>

theorem xor_transform_involution_counterexample:
  "is_bytes [66] \<and> representable (1 / 2) \<and> representable (- (2 ^ 1023)) \<and> representable 0 \<and>
   xor_transform rounding_libm [66] (Finite (1 / 2)) (Finite (- (2 ^ 1023))) (Finite 0)
     = Inl OverflowError"
  using keygen_overflow representable_half representable_big representable_0
  by (simp add: xor_transform_def is_bytes_def)




text \<open>
  C3, as amended.  Byte mapping: in every iteration of a run that returns, the emitted
  byte is the scaled value \<open>((x + 1) / 2) * 256\<close> of the state \<open>x\<close> the loop has just
  assigned, truncated towards zero and reduced modulo 256; it is
  \<open>floor(((x + 1) / 2) * 256)\<close> modulo 256 whenever the scaled value is not negative or is
  an integer, also when it exceeds 255, and one more than that floor, modulo 256, when the
  scaled value is negative and not an integer.
\<close>

theorem keygen_byte_trunc:
  assumes "gauss_map_keygen lib n x0 alpha beta = Inr ks" "i < length ks"
  shows "\<exists>x key s.
           for_range (keygen_body lib alpha beta) [0..<Suc i] (PyFloat x0, replicate (nat n) 0)
             = Inr (NpFloat64 x, key) \<and>
           scaled x = Finite s \<and> key ! i = ks ! i \<and>
           ks ! i = (if 0 \<le> s then \<lfloor>s\<rfloor> else \<lceil>s\<rceil>) mod 256 \<and>
           (0 \<le> s \<or> of_int \<lfloor>s\<rfloor> = s \<longrightarrow> ks ! i = spec_floor_byte s) \<and>
           (s < 0 \<and> of_int \<lfloor>s\<rfloor> \<noteq> s \<longrightarrow> ks ! i = (\<lfloor>s\<rfloor> + 1) mod 256)"
proof -
  obtain key s where k: "for_range (keygen_body lib alpha beta) [0..<Suc i]
        (PyFloat x0, replicate (nat n) 0)
      = Inr (NpFloat64 (loop_state lib alpha beta x0 (Suc i)), key)"
    and s: "scaled (loop_state lib alpha beta x0 (Suc i)) = Finite s" "key ! i = ks ! i"
    and b: "ks ! i = (if 0 \<le> s then \<lfloor>s\<rfloor> else \<lceil>s\<rceil>) AND 255"
    using keygen_state_byte[OF assms] by blast
  have c1: "of_int \<lfloor>s\<rfloor> = s \<Longrightarrow> \<lceil>s\<rceil> = \<lfloor>s\<rfloor>" by (metis ceiling_of_int)
  have c2: "of_int \<lfloor>s\<rfloor> \<noteq> s \<Longrightarrow> \<lceil>s\<rceil> = \<lfloor>s\<rfloor> + 1" by (simp add: ceiling_altdef)
  have "ks ! i = (if 0 \<le> s then \<lfloor>s\<rfloor> else \<lceil>s\<rceil>) mod 256 \<and>
           (0 \<le> s \<or> of_int \<lfloor>s\<rfloor> = s \<longrightarrow> ks ! i = spec_floor_byte s) \<and>
           (s < 0 \<and> of_int \<lfloor>s\<rfloor> \<noteq> s \<longrightarrow> ks ! i = (\<lfloor>s\<rfloor> + 1) mod 256)"
    using b c1 c2 by (auto simp: and_255_mod spec_floor_byte_def)
  then show ?thesis using k s by blast
qed

theorem keygen_byte_trunc_witness:
  "gauss_map_keygen rounding_libm 1 (Finite 0) (Finite 0) (Finite (- (1025 / 512))) = Inr [0] \<and>
   (0::nat) < length [0::int] \<and>
   (\<exists>key. for_range (keygen_body rounding_libm (Finite 0) (Finite (- (1025 / 512)))) [0..<Suc 0]
            (PyFloat (Finite 0), replicate (nat 1) 0)
          = Inr (NpFloat64 (Finite (- (513 / 512))), key)) \<and>
   scaled (Finite (- (513 / 512))) = Finite (- (1 / 4)) \<and>
   [0::int] ! 0 = \<lceil>- (1 / 4 :: real)\<rceil> mod 256 \<and>
   [0::int] ! 0 = (\<lfloor>- (1 / 4 :: real)\<rfloor> + 1) mod 256"
proof -
  have run: "gauss_map_keygen rounding_libm 1 (Finite 0) (Finite 0) (Finite (- (1025 / 512)))
      = Inr [0]"
    by (rule keygen_negative_scaled)
  have st: "loop_state rounding_libm (Finite 0) (Finite (- (1025 / 512))) (Finite 0) (Suc 0)
      = Finite (- (513 / 512))"
    by (simp add: round_double_values)
  have sc: "scaled (Finite (- (513 / 512))) = Finite (- (1 / 4))"
    using scaled_negative[of rounding_libm] by (simp only: st)
  have "\<exists>x key s.
           for_range (keygen_body rounding_libm (Finite 0) (Finite (- (1025 / 512)))) [0..<Suc 0]
             (PyFloat (Finite 0), replicate (nat 1) 0) = Inr (NpFloat64 x, key) \<and>
           scaled x = Finite s \<and> key ! 0 = [0::int] ! 0 \<and>
           [0::int] ! 0 = (if 0 \<le> s then \<lfloor>s\<rfloor> else \<lceil>s\<rceil>) mod 256 \<and>
           (0 \<le> s \<or> of_int \<lfloor>s\<rfloor> = s \<longrightarrow> [0::int] ! 0 = spec_floor_byte s) \<and>
           (s < 0 \<and> of_int \<lfloor>s\<rfloor> \<noteq> s \<longrightarrow> [0::int] ! 0 = (\<lfloor>s\<rfloor> + 1) mod 256)"
    by (rule keygen_byte_trunc[OF run]) simp
  then obtain x key s where k: "for_range (keygen_body rounding_libm (Finite 0) (Finite (- (1025 / 512))))
        [0..<Suc 0] (PyFloat (Finite 0), replicate (nat 1) 0) = Inr (NpFloat64 x, key)"
    and s: "scaled x = Finite s"
    and b: "[0::int] ! 0 = (if 0 \<le> s then \<lfloor>s\<rfloor> else \<lceil>s\<rceil>) mod 256"
      "s < 0 \<and> of_int \<lfloor>s\<rfloor> \<noteq> s \<longrightarrow> [0::int] ! 0 = (\<lfloor>s\<rfloor> + 1) mod 256"
    by blast
  have "for_range (keygen_body rounding_libm (Finite 0) (Finite (- (1025 / 512))))
        [0..<Suc 0] (PyFloat (Finite 0), replicate (nat 1) 0)
      = Inr (loop_x rounding_libm (Finite 0) (Finite (- (1025 / 512))) (Finite 0) (Suc 0),
             map (\<lambda>i. trunc_byte (loop_state rounding_libm (Finite 0) (Finite (- (1025 / 512)))
               (Finite 0) (Suc i))) [0..<Suc 0] @ replicate (nat 1 - Suc 0) 0)"
    using keygen_prefix[OF run, of "Suc 0"] by simp
  then have x: "x = Finite (- (513 / 512))"
    using k st by (simp add: loop_x_def del: loop_state.simps)
  then have s4: "s = - (1 / 4)" using s sc by simp
  have "[0::int] ! 0 = \<lceil>- (1 / 4 :: real)\<rceil> mod 256" using b(1) unfolding s4 by simp
  moreover have "[0::int] ! 0 = (\<lfloor>- (1 / 4 :: real)\<rfloor> + 1) mod 256"
    using b(2) unfolding s4 by (simp add: floor_minus_quarter)
  ultimately show ?thesis using run k x sc by auto
qed

text \<open>
  C3 as stated fails on a negative scaled value: for \<open>x0 = 0.0\<close>, \<open>alpha = 0.0\<close>,
  \<open>beta = -2.001953125\<close> the updated state is \<open>-1.001953125\<close> and the scaled value
  \<open>-0.25\<close>; the generator emits 0, the floor formula gives 255, whatever the library
  computes.
\<close>

theorem keygen_byte_floor_counterexample:
  "representable 0 \<and> representable (- (1025 / 512)) \<and>
   (\<forall>lib. gauss_map_keygen lib 1 (Finite 0) (Finite 0) (Finite (- (1025 / 512))) = Inr [0]) \<and>
   (\<forall>lib. scaled (loop_state lib (Finite 0) (Finite (- (1025 / 512))) (Finite 0) (Suc 0))
      = Finite (- (1 / 4))) \<and>
   spec_floor_byte (- (1 / 4)) = 255"
  using keygen_negative_scaled scaled_negative representable_0 representable_beta
  by (simp add: spec_floor_byte_def floor_minus_quarter)




text \<open>
  C5.  Map update: in every iteration of a run that returns, the loop squares the \<open>x\<close> it
  holds, \<open>x0\<close> in the first iteration, assigns to \<open>x\<close> the double
  \<open>np.exp(-alpha * x**2) + beta\<close>, and computes the byte of that iteration from the new
  \<open>x\<close>: the state is updated before each byte is emitted.  For a seed in \<open>[-1, 1]\<close>,
  \<open>alpha\<close> in \<open>[0, 16]\<close>, \<open>beta\<close> in \<open>[-1, 1]\<close> and a library accurate to \<open>2 ^ -45\<close> the
  new \<open>x\<close> is within \<open>2 ^ -40\<close> of the real number \<open>exp(-alpha * x^2) + beta\<close>, the
  Gaussian map and no other.
\<close>

theorem keygen_map_update:
  assumes "gauss_map_keygen lib n x0 alpha beta = Inr ks" "i < length ks"
  shows "\<exists>x key sq x' key' v.
           for_range (keygen_body lib alpha beta) [0..<i] (PyFloat x0, replicate (nat n) 0)
             = Inr (x, key) \<and>
           (i = 0 \<longrightarrow> x = PyFloat x0) \<and>
           pow2 lib x = Inr sq \<and>
           x' = fadd (np_exp lib (fmul (fneg alpha) sq)) beta \<and>
           for_range (keygen_body lib alpha beta) [0..<Suc i] (PyFloat x0, replicate (nat n) 0)
             = Inr (NpFloat64 x', key') \<and>
           py_int (scaled x') = Inr v \<and> key' ! i = v AND 255 \<and> ks ! i = key' ! i \<and>
           (\<forall>r0 a b. lib_accurate lib \<and> x0 = Finite r0 \<and> \<bar>r0\<bar> \<le> 1 \<and>
                     alpha = Finite a \<and> 0 \<le> a \<and> a \<le> 16 \<and> beta = Finite b \<and> \<bar>b\<bar> \<le> 1 \<longrightarrow>
              (\<exists>r r'. (x = PyFloat (Finite r) \<or> x = NpFloat64 (Finite r)) \<and> x' = Finite r' \<and>
                       \<bar>r' - spec_gauss_map a b r\<bar> \<le> 1 / 2 ^ 40))"
proof -
  let ?st = "loop_state lib alpha beta x0"
  let ?sq = "(if i = 0 then py_square lib else np_square lib) (?st i)"
  have n: "i < nat n" and ok: "loop_ok lib alpha beta x0 (nat n)"
    using assms by (auto simp: keygen_Inr_iff simp del: loop_state.simps)
  obtain key where pre: "for_range (keygen_body lib alpha beta) [0..<i]
      (PyFloat x0, replicate (nat n) 0) = Inr (loop_x lib alpha beta x0 i, key)"
    using keygen_prefix[OF assms(1), of i] assms(2) by simp
  have seed: "is_finite x0 \<longrightarrow> is_finite (py_square lib x0)"
    using ok n by (simp add: loop_ok_def del: loop_state.simps)
  have p2: "pow2 lib (loop_x lib alpha beta x0 i) = Inr ?sq"
    using seed by (simp add: pow2_loop_x del: loop_state.simps)
  have upd: "?st (Suc i) = fadd (np_exp lib (fmul (fneg alpha) ?sq)) beta"
    by simp
  obtain key' s where post: "for_range (keygen_body lib alpha beta) [0..<Suc i]
        (PyFloat x0, replicate (nat n) 0) = Inr (NpFloat64 (?st (Suc i)), key')"
    and s: "scaled (?st (Suc i)) = Finite s" "key' ! i = ks ! i"
      "ks ! i = (if 0 \<le> s then \<lfloor>s\<rfloor> else \<lceil>s\<rceil>) AND 255"
    using keygen_state_byte[OF assms] by blast
  have byte: "py_int (scaled (?st (Suc i))) = Inr (if 0 \<le> s then \<lfloor>s\<rfloor> else \<lceil>s\<rceil>)"
    by (simp only: s(1) py_int.simps)
  have num: "\<exists>r r'. (loop_x lib alpha beta x0 i = PyFloat (Finite r) \<or>
                     loop_x lib alpha beta x0 i = NpFloat64 (Finite r)) \<and>
                    ?st (Suc i) = Finite r' \<and> \<bar>r' - spec_gauss_map a b r\<bar> \<le> 1 / 2 ^ 40"
    if "lib_accurate lib \<and> x0 = Finite r0 \<and> \<bar>r0\<bar> \<le> 1 \<and>
        alpha = Finite a \<and> 0 \<le> a \<and> a \<le> 16 \<and> beta = Finite b \<and> \<bar>b\<bar> \<le> 1" for r0 a b
  proof -
    have h: "lib_accurate lib" "\<bar>r0\<bar> \<le> 1" "0 \<le> a" "a \<le> 16" "\<bar>b\<bar> \<le> 1"
      and e: "x0 = Finite r0" "alpha = Finite a" "beta = Finite b"
      using that by blast+
    obtain r r' where "?st i = Finite r" "?st (Suc i) = Finite r'"
      "\<bar>r' - spec_gauss_map a b r\<bar> \<le> 1 / 2 ^ 40"
      unfolding e using loop_state_accurate[OF h, of i] by blast
    then show ?thesis by (cases "i = 0") (auto simp: loop_x_def e simp del: loop_state.simps(2))
  qed
  show ?thesis
    apply (rule exI[of _ "loop_x lib alpha beta x0 i"], rule exI[of _ key], rule exI[of _ ?sq])
    apply (rule exI[of _ "?st (Suc i)"], rule exI[of _ key'])
    apply (rule exI[of _ "if 0 \<le> s then \<lfloor>s\<rfloor> else \<lceil>s\<rceil>"])
    using pre p2 upd post byte s num
    apply (simp add: loop_x_def del: loop_state.simps)
    done
qed

theorem keygen_map_update_witness:
  "\<exists>ks key key' r'.
     gauss_map_keygen rounding_libm 2 (Finite 0) (Finite 1) (Finite 0) = Inr ks \<and>
     1 < length ks \<and>
     for_range (keygen_body rounding_libm (Finite 1) (Finite 0)) [0..<1]
       (PyFloat (Finite 0), replicate (nat 2) 0) = Inr (NpFloat64 (Finite 1), key) \<and>
     for_range (keygen_body rounding_libm (Finite 1) (Finite 0)) [0..<Suc 1]
       (PyFloat (Finite 0), replicate (nat 2) 0) = Inr (NpFloat64 (Finite r'), key') \<and>
     \<bar>r' - exp (- 1)\<bar> \<le> 1 / 2 ^ 40 \<and> r' < 1"
proof -
  let ?body = "keygen_body rounding_libm (Finite 1) (Finite 0)"
  let ?s0 = "(PyFloat (Finite 0), replicate (nat 2) (0::int))"
  obtain ks where run: "gauss_map_keygen rounding_libm 2 (Finite 0) (Finite 1) (Finite 0) = Inr ks"
    using keygen_total_on_domain[OF rounding_libm_accurate, of 2 0 1 0] by auto
  have len: "1 < length ks" using keygen_Inr_length[OF run] by simp
  have "\<exists>x key sq x' key' v.
          for_range ?body [0..<1] ?s0 = Inr (x, key) \<and>
          ((1::nat) = 0 \<longrightarrow> x = PyFloat (Finite 0)) \<and>
          pow2 rounding_libm x = Inr sq \<and>
          x' = fadd (np_exp rounding_libm (fmul (fneg (Finite 1)) sq)) (Finite 0) \<and>
          for_range ?body [0..<Suc 1] ?s0 = Inr (NpFloat64 x', key') \<and>
          py_int (scaled x') = Inr v \<and> key' ! 1 = v AND 255 \<and> ks ! 1 = key' ! 1 \<and>
          (\<forall>r0 a b. lib_accurate rounding_libm \<and> Finite 0 = Finite r0 \<and> \<bar>r0\<bar> \<le> 1 \<and>
                    Finite 1 = Finite a \<and> 0 \<le> a \<and> a \<le> 16 \<and> Finite 0 = Finite b \<and> \<bar>b\<bar> \<le> 1 \<longrightarrow>
             (\<exists>r r'. (x = PyFloat (Finite r) \<or> x = NpFloat64 (Finite r)) \<and> x' = Finite r' \<and>
                      \<bar>r' - spec_gauss_map a b r\<bar> \<le> 1 / 2 ^ 40))"
    by (rule keygen_map_update[OF run len])
  then obtain x key x' key' where
    pre: "for_range ?body [0..<1] ?s0 = Inr (x, key)" and
    post: "for_range ?body [0..<Suc 1] ?s0 = Inr (NpFloat64 x', key')" and
    num: "\<forall>r0 a b. lib_accurate rounding_libm \<and> Finite 0 = Finite r0 \<and> \<bar>r0\<bar> \<le> 1 \<and>
                    Finite 1 = Finite a \<and> 0 \<le> a \<and> a \<le> 16 \<and> Finite 0 = Finite b \<and> \<bar>b\<bar> \<le> 1 \<longrightarrow>
             (\<exists>r r'. (x = PyFloat (Finite r) \<or> x = NpFloat64 (Finite r)) \<and> x' = Finite r' \<and>
                      \<bar>r' - spec_gauss_map a b r\<bar> \<le> 1 / 2 ^ 40)"
    by (elim exE conjE) (rule that)
  have hyp: "lib_accurate rounding_libm \<and> Finite 0 = Finite (0::real) \<and> \<bar>0::real\<bar> \<le> 1 \<and>
        Finite 1 = Finite (1::real) \<and> (0::real) \<le> 1 \<and> (1::real) \<le> 16 \<and>
        Finite 0 = Finite (0::real) \<and> \<bar>0::real\<bar> \<le> 1"
    using rounding_libm_accurate by simp
  have "\<exists>r r'. (x = PyFloat (Finite r) \<or> x = NpFloat64 (Finite r)) \<and> x' = Finite r' \<and>
                    \<bar>r' - spec_gauss_map 1 0 r\<bar> \<le> 1 / 2 ^ 40"
    by (rule num[THEN spec, THEN spec, THEN spec, THEN mp, OF hyp])
  then obtain r r' where x: "x = PyFloat (Finite r) \<or> x = NpFloat64 (Finite r)"
    and x': "x' = Finite r'" and acc: "\<bar>r' - spec_gauss_map 1 0 r\<bar> \<le> 1 / 2 ^ 40"
    by (elim exE conjE) (rule that)
  have "for_range ?body [0..<1] ?s0
          = Inr (loop_x rounding_libm (Finite 1) (Finite 0) (Finite 0) 1,
                 map (\<lambda>i. trunc_byte (loop_state rounding_libm (Finite 1) (Finite 0) (Finite 0) (Suc i))) [0..<1]
                   @ replicate (nat 2 - 1) 0)"
    using keygen_prefix[OF run, of 1] len by simp
  then have "x = loop_x rounding_libm (Finite 1) (Finite 0) (Finite 0) 1"
    using pre by simp
  then have x1: "x = NpFloat64 (Finite 1)"
    by (simp add: loop_x_def rd_0 rd_1)
  then have r: "r = 1" using x by simp
  have "(2::real) \<le> exp 1" using exp_ge_add_one_self[of "1::real"] by simp
  then have "exp (- 1 :: real) \<le> 1 / 2"
    by (simp add: exp_minus field_simps)
  moreover have "spec_gauss_map 1 0 1 = exp (- 1)" by (simp add: spec_gauss_map_def)
  moreover have "(1::real) / 2 ^ 40 < 1 / 2" by simp
  ultimately have facts: "exp (- 1 :: real) \<le> 1 / 2" "spec_gauss_map 1 0 1 = exp (- 1)"
    "(1::real) / 2 ^ 40 < 1 / 2"
    by blast+
  have b1: "\<bar>r' - exp (- 1)\<bar> \<le> 1 / 2 ^ 40"
    using acc unfolding r facts(2) .
  have b2: "r' < 1"
    using b1 facts(1,3) by linarith
  note b = b1 b2
  show ?thesis
    apply (rule exI[of _ ks], rule exI[of _ key], rule exI[of _ key'], rule exI[of _ r'])
    apply (intro conjI)
    apply (rule run len pre[unfolded x1] post[unfolded x'] b)+
    done
qed

text \<open>
  C7.  Length fidelity: the sequence the generator returns for the length \<open>n\<close> has
  exactly \<open>n\<close> bytes; for \<open>n = 0\<close> it returns the empty sequence, and the loop over
  \<open>range(0)\<close> leaves the state as it is whatever its body.
\<close>

theorem keygen_length:
  "(gauss_map_keygen lib n x0 alpha beta = Inr ks \<longrightarrow> int (length ks) = n) \<and>
   gauss_map_keygen lib 0 x0 alpha beta = Inr [] \<and>
   for_range body [0..<nat 0] s = Inr s"
  using keygen_Inr_length[of lib n x0 alpha beta ks] by (auto simp: keygen_Inr_iff loop_ok_def)

theorem keygen_length_witness:
  "gauss_map_keygen rounding_libm 3 (Finite 0) (Finite 0) (Finite (1 / 2)) = Inr [64, 64, 64] \<and>
   int (length [64, 64, 64 :: int]) = 3"
proof -
  have "int (length [64, 64, 64 :: int]) = 3"
    by (rule keygen_length[THEN conjunct1, THEN mp, OF keygen_example])
  then show ?thesis using keygen_example by blast
qed

text \<open>C8.  Byte range: every byte of a sequence the generator returns lies in [0, 255].\<close>

theorem keygen_byte_range:
  "gauss_map_keygen lib n x0 alpha beta = Inr ks \<Longrightarrow> \<forall>k \<in> set ks. 0 \<le> k \<and> k \<le> 255"
  using keygen_is_bytes[of lib n x0 alpha beta ks] by (simp add: is_bytes_def)

theorem keygen_byte_range_witness:
  "gauss_map_keygen rounding_libm 3 (Finite 0) (Finite 0) (Finite (1 / 2)) = Inr [64, 64, 64] \<and>
   (64::int) \<in> set [64, 64, 64] \<and> (0::int) \<le> 64 \<and> (64::int) \<le> 255"
proof -
  have m: "(64::int) \<in> set [64, 64, 64]" by simp
  have "(0::int) \<le> 64 \<and> (64::int) \<le> 255"
    by (rule keygen_byte_range[OF keygen_example, THEN bspec, OF m])
  then show ?thesis using keygen_example m by blast
qed

text \<open>
  C9.  Seed-sign symmetry: the generator gives the same result, bytes or exception, on
  \<open>x0\<close> and on \<open>-x0\<close>, since the seed enters the first update through its square only.
\<close>

theorem seed_sign_symmetry:
  "gauss_map_keygen lib n (fneg x0) alpha beta = gauss_map_keygen lib n x0 alpha beta"
proof (cases "nat n")
  case 0
  then show ?thesis by (simp add: gauss_map_keygen_def split: sum.splits)
next
  case (Suc m)
  then have "[0..<nat n] = 0 # [1..<Suc m]" by (simp add: upt_conv_Cons)
  then show ?thesis by (simp add: gauss_map_keygen_def keygen_body_fneg split: sum.splits)
qed

theorem seed_sign_symmetry_witness:
  "gauss_map_keygen rounding_libm 3 (Finite (- 1)) (Finite 0) (Finite (1 / 2))
     = gauss_map_keygen rounding_libm 3 (Finite 1) (Finite 0) (Finite (1 / 2))"
  using seed_sign_symmetry[of rounding_libm 3 "Finite 1" "Finite 0" "Finite (1 / 2)"]
  by (simp only: fneg.simps)

text \<open>
  C10.  Negative length: for a negative length the generator raises at
  \<open>bytearray(length)\<close>, before the loop and whatever the parameters: \<open>ValueError\<close> for a
  length from \<open>-2 ** 63\<close> on, \<open>OverflowError\<close> for a length below \<open>-2 ** 63\<close>, which does
  not fit an index.  It never returns a sequence.
\<close>

theorem negative_length_raises:
  "len < 0 \<Longrightarrow>
   gauss_map_keygen lib len x0 alpha beta
     = Inl (if len < - (2 ^ 63) then OverflowError else ValueError)"
  by (simp add: gauss_map_keygen_def bytearray_def)

theorem negative_length_raises_witness:
  "(- 1 :: int) < 0 \<and>
   gauss_map_keygen rounding_libm (- 1) (Finite (1 / 2)) NaN PInf = Inl ValueError \<and>
   (- (2 ^ 63) - 1 :: int) < 0 \<and>
   gauss_map_keygen rounding_libm (- (2 ^ 63) - 1) (Finite (1 / 2)) NaN PInf = Inl OverflowError"
proof -
  have h: "(- 1 :: int) < 0" by simp
  have k: "(- (2 ^ 63) - 1 :: int) < 0" by simp
  have "gauss_map_keygen rounding_libm (- 1) (Finite (1 / 2)) NaN PInf = Inl ValueError"
    using negative_length_raises[OF h, of rounding_libm "Finite (1 / 2)" NaN PInf] by simp
  moreover have "gauss_map_keygen rounding_libm (- (2 ^ 63) - 1) (Finite (1 / 2)) NaN PInf
      = Inl OverflowError"
    using negative_length_raises[OF k, of rounding_libm "Finite (1 / 2)" NaN PInf] by simp
  ultimately show ?thesis using h k by blast
qed

end
